theory Spec2Isabelle
  imports Main "HOL-Library.Multiset" "HOL-Library.Monad_Syntax"
begin

section \<open>The CUDA device reduction of Kokkos (Kokkos\_CudaDeviceReduce.hpp)\<close>

text \<open>
  The development embeds the reduction engine of \<^verbatim>\<open>Kokkos_CudaDeviceReduce.hpp\<close>.
  Conventions of the embedding:
  \<^item> \<^verbatim>\<open>size_t\<close> and \<^verbatim>\<open>unsigned int\<close> values are natural numbers; \<^verbatim>\<open>x >> 1\<close> is
    \<open>x div 2\<close>. In the kernel the index arithmetic of the work loop wraps around as in
    the source: the start index and the stride are computed in \<^verbatim>\<open>unsigned int\<close>, of 32
    bits, and the loop index is advanced in \<^verbatim>\<open>size_t\<close>, of 64 bits. On the host the
    products of \<^verbatim>\<open>size_t\<close> values are taken exactly.
  \<^item> A slot of shared memory (\<^verbatim>\<open>CudaSharedMemoryReduceType\<close>, a union of the value and
    its storage words) is modelled by its \<^verbatim>\<open>value\<close> member; the shared memory of a
    thread block is the list of the slots of its threads, indexed by \<^verbatim>\<open>threadIdx.x\<close>.
  \<^item> The threads of a block run in lockstep: a step of the tree reduction is taken by
    all threads at once. Blocks of a launch run one after the other, by block index.
  \<^item> A loop of the source that may run forever is a partial function in the option
    monad: \<open>None\<close> is a computation that never returns.
\<close>

subsection \<open>Storage of one value: \<^verbatim>\<open>CudaWordCount\<close>, \<^verbatim>\<open>CudaSharedMemoryReduceType\<close>\<close>

text \<open>\<^verbatim>\<open>typedef unsigned int CudaWordType\<close>: four bytes on the device.\<close>

definition CudaWordType_size :: nat where
  "CudaWordType_size = 4"

text \<open>\<^verbatim>\<open>CudaWordCount<ValueType>::value\<close>, as a function of \<^verbatim>\<open>sizeof(ValueType)\<close>.\<close>

definition CudaWordCount :: "nat \<Rightarrow> nat" where
  "CudaWordCount sizeof_value =
     (sizeof_value + CudaWordType_size - 1) div CudaWordType_size"

definition SharedMemoryBanks :: nat where
  "SharedMemoryBanks = 32"

text \<open>
  The number of elements of the member \<^verbatim>\<open>storage\<close>:
  \<^verbatim>\<open>WordCount + ( WordCount % SharedMemoryBanks ? 0 : 1 )\<close>.
\<close>

definition storage_words :: "nat \<Rightarrow> nat" where
  "storage_words sizeof_value =
     (let WordCount = CudaWordCount sizeof_value
      in WordCount + (if WordCount mod SharedMemoryBanks \<noteq> 0 then 0 else 1))"

subsection \<open>The reduction functor\<close>

text \<open>
  A functor type supplies \<^verbatim>\<open>init(value&)\<close>, the call operator
  \<^verbatim>\<open>functor(iwork, value&)\<close> and \<^verbatim>\<open>join(value&, const value&)\<close>; an updated reference is
  the result of the function.
\<close>

record 'v reduce_functor =
  f_init :: 'v
  f_apply :: "nat \<Rightarrow> 'v \<Rightarrow> 'v"
  f_join :: "'v \<Rightarrow> 'v \<Rightarrow> 'v"

subsection \<open>\<^verbatim>\<open>reduce_shared_on_cuda\<close>: the tree reduction inside a block\<close>

text \<open>
  One pass of the loop body for a given \<open>j\<close>, by all threads: thread \<open>i < j\<close> joins
  slot \<open>i + j\<close> into its own slot \<open>i\<close>. Only slots below \<open>j\<close> are written and only
  slots from \<open>j\<close> on are read from other threads, so the order of the threads is
  immaterial.
\<close>

definition reduce_step :: "('v \<Rightarrow> 'v \<Rightarrow> 'v) \<Rightarrow> nat \<Rightarrow> 'v list \<Rightarrow> 'v list" where
  "reduce_step join j shared =
     map (\<lambda>i. if i < j then join (shared ! i) (shared ! (i + j)) else shared ! i)
       [0..<length shared]"

text \<open>\<^verbatim>\<open>for ( unsigned int j = blockDim.x ; j ; ) { j >>= 1 ; ... }\<close>\<close>

fun reduce_loop :: "('v \<Rightarrow> 'v \<Rightarrow> 'v) \<Rightarrow> nat \<Rightarrow> 'v list \<Rightarrow> 'v list" where
  "reduce_loop join j shared =
     (if j = 0 then shared
      else reduce_loop join (j div 2) (reduce_step join (j div 2) shared))"

declare reduce_loop.simps [simp del]

text \<open>The loop starts at \<^verbatim>\<open>blockDim.x\<close>, the number of slots of the block.\<close>

definition reduce_shared_on_cuda :: "('v \<Rightarrow> 'v \<Rightarrow> 'v) \<Rightarrow> 'v list \<Rightarrow> 'v list" where
  "reduce_shared_on_cuda join shared = reduce_loop join (length shared) shared"

subsection \<open>\<^verbatim>\<open>run_reduce_functor_on_cuda\<close>: the work loop of one thread\<close>

text \<open>
  The number of values of \<^verbatim>\<open>unsigned int\<close>, the type of \<^verbatim>\<open>threadIdx.x\<close>, \<^verbatim>\<open>blockIdx.x\<close>,
  \<^verbatim>\<open>blockDim.x\<close> and \<^verbatim>\<open>gridDim.x\<close>, and of \<^verbatim>\<open>size_t\<close>.
\<close>

definition uint_range :: nat where
  "uint_range = 2 ^ 32"

definition size_t_range :: nat where
  "size_t_range = 2 ^ 64"

text \<open>
  \<^verbatim>\<open>for ( iwork = ... ; iwork < work_count ; iwork += work_stride ) functor( iwork , value )\<close>,
  with \<^verbatim>\<open>iwork += work_stride\<close> wrapping around in \<^verbatim>\<open>size_t\<close>. With a stride of zero the
  loop never ends.
\<close>

partial_function (option) work_loop ::
  "(nat \<Rightarrow> 'v \<Rightarrow> 'v) \<Rightarrow> nat \<Rightarrow> nat \<Rightarrow> nat \<Rightarrow> 'v \<Rightarrow> 'v option" where
  "work_loop functr work_count work_stride iwork v =
     (if iwork < work_count
      then work_loop functr work_count work_stride
             ((iwork + work_stride) mod size_t_range) (functr iwork v)
      else Some v)"

declare work_loop.simps [code]

text \<open>
  The slot of thread \<open>threadIdx\<close> of block \<open>blockIdx\<close> before the tree reduction:
  initialised, then updated at every index of the thread. The stride
  \<^verbatim>\<open>blockDim.x * gridDim.x\<close> and the start index \<^verbatim>\<open>threadIdx.x + blockDim.x * blockIdx.x\<close>
  are computed in \<^verbatim>\<open>unsigned int\<close> and wrap around there.
\<close>

definition thread_value ::
  "'v reduce_functor \<Rightarrow> nat \<Rightarrow> nat \<Rightarrow> nat \<Rightarrow> nat \<Rightarrow> nat \<Rightarrow> 'v option" where
  "thread_value F work_count gridDim blockDim blockIdx threadIdx =
     work_loop (f_apply F) work_count ((blockDim * gridDim) mod uint_range)
       ((threadIdx + blockDim * blockIdx) mod uint_range) (f_init F)"

text \<open>
  The indices at which a thread calls the functor, in the order of the calls: the work
  loop run with a functor that records its index argument.
\<close>

definition thread_visits :: "nat \<Rightarrow> nat \<Rightarrow> nat \<Rightarrow> nat \<Rightarrow> nat \<Rightarrow> nat list option" where
  "thread_visits work_count gridDim blockDim blockIdx threadIdx =
     work_loop (\<lambda>iwork seen. seen @ [iwork]) work_count ((blockDim * gridDim) mod uint_range)
       ((threadIdx + blockDim * blockIdx) mod uint_range) []"

text \<open>
  The slots of the threads of a block after their work loops, before the tree
  reduction; there are none while a work loop runs.
\<close>

definition block_thread_values ::
  "'v reduce_functor \<Rightarrow> nat \<Rightarrow> nat \<Rightarrow> nat \<Rightarrow> nat \<Rightarrow> 'v list option" where
  "block_thread_values F work_count gridDim blockDim blockIdx =
     those (map (thread_value F work_count gridDim blockDim blockIdx) [0..<blockDim])"

text \<open>The shared memory of a block after the work loops and the tree reduction.\<close>

definition block_shared ::
  "'v reduce_functor \<Rightarrow> nat \<Rightarrow> nat \<Rightarrow> nat \<Rightarrow> nat \<Rightarrow> 'v list option" where
  "block_shared F work_count gridDim blockDim blockIdx =
     map_option (reduce_shared_on_cuda (f_join F))
       (block_thread_values F work_count gridDim blockDim blockIdx)"

subsection \<open>Device state and the two finalize functors\<close>

text \<open>
  One call of the application's serial finalize functor, with the thread that made it.
\<close>

record 'v serial_call =
  call_gridDim :: nat
  call_blockIdx :: nat
  call_threadIdx :: nat
  call_value :: 'v

datatype finalize_kind = Finalize_functor | Finalize_block

datatype event =
    Allocate_memory nat nat
  | Launch_reduce_functor finalize_kind nat nat nat
  | Launch_reduce_operator finalize_kind nat nat nat
  | Deallocate_memory

text \<open>
  \<open>block_value\<close> is the array of block results in global memory, one slot per block, a
  slot being \<open>None\<close> until it is written; \<open>serial_calls\<close> are the calls of the serial
  finalize functor so far; \<open>events\<close> are the allocations, kernel launches (with grid
  size, block size and bytes of shared memory) and deallocations of the host so far;
  \<open>block_writes\<close> are the writes into the array of block results so far, each with the
  index of the slot and the value written.
\<close>

record 'v state =
  events :: "event list"
  block_value :: "'v option list"
  serial_calls :: "'v serial_call list"
  block_writes :: "(nat \<times> 'v) list"

definition initial_state :: "'v state" where
  "initial_state = \<lparr>events = [], block_value = [], serial_calls = [], block_writes = []\<rparr>"

text \<open>
  \<^verbatim>\<open>CudaParallelReduceFinalizeFunctor::operator()\<close> in one thread:
  \<^verbatim>\<open>if ( 1 == gridDim.x && 0 == threadIdx.x ) serial_finalize( shared_local->value )\<close>
  with \<^verbatim>\<open>shared_local\<close> the slot of the thread.
\<close>

definition finalize_functor_thread ::
  "nat \<Rightarrow> nat \<Rightarrow> 'v list \<Rightarrow> nat \<Rightarrow> 'v state \<Rightarrow> 'v state" where
  "finalize_functor_thread gridDim blockIdx shared threadIdx st =
     (if 1 = gridDim \<and> 0 = threadIdx
      then st\<lparr>serial_calls := serial_calls st @
             [\<lparr>call_gridDim = gridDim, call_blockIdx = blockIdx,
               call_threadIdx = threadIdx, call_value = shared ! threadIdx\<rparr>]\<rparr>
      else st)"

text \<open>A finalize functor, run by every thread of a block.\<close>

type_synonym 'v finalize = "nat \<Rightarrow> nat \<Rightarrow> nat \<Rightarrow> 'v list \<Rightarrow> 'v state \<Rightarrow> 'v state"

definition CudaParallelReduceFinalizeFunctor :: "'v finalize" where
  "CudaParallelReduceFinalizeFunctor gridDim blockIdx blockDim shared st =
     fold (finalize_functor_thread gridDim blockIdx shared) [0..<blockDim] st"

text \<open>
  \<^verbatim>\<open>CudaParallelReduceFinalizeBlock::operator()\<close>: the threads of the block together copy
  the \<^verbatim>\<open>WordCount\<close> storage words of slot 0 of shared memory (thread \<open>t\<close> the words
  \<open>t\<close>, \<open>t + blockDim\<close>, ...) to \<^verbatim>\<open>block_value + blockIdx.x\<close>. At the level of values
  this is one write of the value of slot 0, made when the block has a thread.
\<close>

definition CudaParallelReduceFinalizeBlock :: "'v finalize" where
  "CudaParallelReduceFinalizeBlock gridDim blockIdx blockDim shared st =
     (if 0 < blockDim
      then st\<lparr>block_value := (block_value st)[blockIdx := Some (shared ! 0)],
              block_writes := block_writes st @ [(blockIdx, shared ! 0)]\<rparr>
      else st)"

subsection \<open>The two kernels\<close>

text \<open>
  A launch \<^verbatim>\<open>run_reduce_functor_on_cuda<<< gridDim , blockDim , ... >>>\<close>: every block
  computes its shared memory and runs the finalize functor. The launch returns only if
  the work loops of all its threads do.
\<close>

definition run_reduce_functor_on_cuda ::
  "'v reduce_functor \<Rightarrow> 'v finalize \<Rightarrow> nat \<Rightarrow> nat \<Rightarrow> nat \<Rightarrow> 'v state \<Rightarrow> 'v state option" where
  "run_reduce_functor_on_cuda F finalize gridDim blockDim work_count st =
     fold (\<lambda>blockIdx r. do {
             s \<leftarrow> r;
             shared \<leftarrow> block_shared F work_count gridDim blockDim blockIdx;
             Some (finalize gridDim blockIdx blockDim shared s)
           }) [0..<gridDim] (Some st)"

datatype error = Allocation_failure | Invalid_read

text \<open>
  The copy of \<^verbatim>\<open>blockDim.x\<close> slots from the array of block results into shared memory,
  word by word by the threads of the block, at the level of values; reading a slot that
  was never written, or one past the end of the array, is an error.
\<close>

definition load_block_result :: "'v option list \<Rightarrow> nat \<Rightarrow> 'v list option" where
  "load_block_result block_result blockDim =
     those (map (\<lambda>i. if i < length block_result then block_result ! i else None)
              [0..<blockDim])"

text \<open>
  A launch \<^verbatim>\<open>run_reduce_operator_on_cuda<<< gridDim , blockDim , ... >>>\<close>: load, tree
  reduction, finalize.
\<close>

definition run_reduce_operator_on_cuda ::
  "'v reduce_functor \<Rightarrow> 'v finalize \<Rightarrow> nat \<Rightarrow> nat \<Rightarrow> 'v state \<Rightarrow> error + 'v state" where
  "run_reduce_operator_on_cuda F finalize gridDim blockDim st =
     fold (\<lambda>blockIdx r.
             case r of
               Inl e \<Rightarrow> Inl e
             | Inr s \<Rightarrow>
                 (if blockDim = 0 then Inr s
                  else case load_block_result (block_value s) blockDim of
                         None \<Rightarrow> Inl Invalid_read
                       | Some shared \<Rightarrow>
                           Inr (finalize gridDim blockIdx blockDim
                                  (reduce_shared_on_cuda (f_join F) shared) s)))
       [0..<gridDim] (Inr st)"

subsection \<open>The host: \<^verbatim>\<open>cuda_parallel_reduce\<close>\<close>

text \<open>
  The device as the host sees it. \<^verbatim>\<open>CudaDevice::reduction_thread_max\<close> and
  \<^verbatim>\<open>CudaDevice::block_count_max\<close> are parameters.
\<close>

record device =
  reduction_thread_max :: "nat \<Rightarrow> nat"
  block_count_max :: nat
  allocation_fails :: bool

text \<open>
  Modelled from the spec: \<^verbatim>\<open>CudaDevice::allocate_memory\<close> and
  \<^verbatim>\<open>CudaDevice::deallocate_memory\<close> are not among the sources. The specification gives
  the allocator as \<open>allocate(byteSize, count) -> pointer\<close> and \<open>deallocate(pointer)\<close>, and
  makes a failed allocation fatal: it is propagated to the caller. The allocation either
  fails, leaving the state as it is, or gives as many slots as asked for, none of them written.
\<close>

definition allocate_memory :: "device \<Rightarrow> nat \<Rightarrow> nat \<Rightarrow> 'v state \<Rightarrow> error \<times> 'v state + 'v state" where
  "allocate_memory dev nbytes ncount st =
     (if allocation_fails dev then Inl (Allocation_failure, st)
      else Inr (st\<lparr>events := events st @ [Allocate_memory nbytes ncount],
                   block_value := replicate ncount None\<rparr>))"

definition deallocate_memory :: "'v state \<Rightarrow> 'v state" where
  "deallocate_memory st =
     st\<lparr>events := events st @ [Deallocate_memory], block_value := []\<rparr>"

text \<open>
  \<^verbatim>\<open>while ( work_count <= ( thread_count >> 1 ) ) { thread_count >>= 1 ; }\<close>
\<close>

partial_function (option) shrink_thread_count :: "nat \<Rightarrow> nat \<Rightarrow> nat option" where
  "shrink_thread_count work_count thread_count =
     (if work_count \<le> thread_count div 2
      then shrink_thread_count work_count (thread_count div 2)
      else Some thread_count)"

declare shrink_thread_count.simps [code]

text \<open>
  \<^verbatim>\<open>while ( work_count <= max_thread_count * ( block_count >> 1 ) ) { block_count >>= 1 ; }\<close>
\<close>

partial_function (option) shrink_block_count :: "nat \<Rightarrow> nat \<Rightarrow> nat \<Rightarrow> nat option" where
  "shrink_block_count work_count max_thread_count block_count =
     (if work_count \<le> max_thread_count * (block_count div 2)
      then shrink_block_count work_count max_thread_count (block_count div 2)
      else Some block_count)"

declare shrink_block_count.simps [code]

definition log_event :: "event \<Rightarrow> 'v state \<Rightarrow> 'v state" where
  "log_event e st = st\<lparr>events := events st @ [e]\<rparr>"

text \<open>
  \<^verbatim>\<open>cuda_parallel_reduce( work_count , functor , finalize )\<close>, with \<open>reduce_size\<close> the
  value of \<^verbatim>\<open>sizeof(reduce_type)\<close>. The result is \<open>None\<close> when the call never returns,
  \<open>Some (Inl (e, st))\<close> when it is left by the error \<open>e\<close> in state \<open>st\<close>, and
  \<open>Some (Inr st)\<close> when it returns in state \<open>st\<close>.
\<close>

definition cuda_parallel_reduce ::
  "device \<Rightarrow> nat \<Rightarrow> nat \<Rightarrow> 'v reduce_functor \<Rightarrow> (error \<times> 'v state + 'v state) option" where
  "cuda_parallel_reduce dev reduce_size work_count F =
     (let max_thread_count = reduction_thread_max dev reduce_size in
      if work_count < max_thread_count then
        do {
          thread_count \<leftarrow> shrink_thread_count work_count max_thread_count;
          st \<leftarrow> run_reduce_functor_on_cuda F CudaParallelReduceFinalizeFunctor
                 1 thread_count work_count
                 (log_event (Launch_reduce_functor Finalize_functor
                               1 thread_count (reduce_size * thread_count))
                    initial_state);
          Some (Inr st)
        }
      else
        do {
          block_count \<leftarrow> shrink_block_count work_count max_thread_count
                           (if max_thread_count < block_count_max dev
                            then max_thread_count else block_count_max dev);
          case allocate_memory dev reduce_size block_count initial_state of
            Inl failure \<Rightarrow> Some (Inl failure)
          | Inr st1 \<Rightarrow>
              do {
                st2 \<leftarrow> run_reduce_functor_on_cuda F CudaParallelReduceFinalizeBlock
                        block_count max_thread_count work_count
                        (log_event (Launch_reduce_functor Finalize_block
                                      block_count max_thread_count
                                      (reduce_size * max_thread_count)) st1);
                case run_reduce_operator_on_cuda F CudaParallelReduceFinalizeFunctor
                       1 block_count
                       (log_event (Launch_reduce_operator Finalize_functor
                                     1 block_count (reduce_size * block_count)) st2) of
                  Inl e \<Rightarrow> Some (Inl (e, st2))
                | Inr st3 \<Rightarrow> Some (Inr (deallocate_memory st3))
              }
        })"

subsection \<open>The two entry points \<^verbatim>\<open>ParallelReduce<...>::run\<close>\<close>

text \<open>
  \<^verbatim>\<open>ParallelReduce< FunctorType , FinalizeType , CudaDevice >::run\<close> passes its arguments
  on; the calls of the caller's finalize functor are the \<open>serial_calls\<close> of the result.
\<close>

definition run_finalize ::
  "device \<Rightarrow> nat \<Rightarrow> nat \<Rightarrow> 'v reduce_functor \<Rightarrow> (error \<times> 'v state + 'v state) option" where
  "run_finalize dev reduce_size work_count F = cuda_parallel_reduce dev reduce_size work_count F"

text \<open>
  Modelled from the spec: \<^verbatim>\<open>ValueView\<close>, \<^verbatim>\<open>create_value\<close> and \<^verbatim>\<open>deep_copy\<close>
  (\<^verbatim>\<open>Kokkos_ValueView.hpp\<close>) are not among the sources. By the specification the form that
  returns a value allocates a transient result holder on the device, runs the reduction
  with the holder as the finalize functor, which writes its argument into the holder,
  and copies the holder back to the host. The holder is \<open>None\<close> until it is written.
\<close>

definition view_after :: "'v serial_call list \<Rightarrow> 'v option" where
  "view_after calls = fold (\<lambda>c view. Some (call_value c)) calls None"

text \<open>
  \<^verbatim>\<open>ParallelReduce< FunctorType , void , CudaDevice >::run\<close>: the holder after the
  reduction, copied to \<^verbatim>\<open>tmp\<close> and returned; an error leaves the function.
\<close>

definition run_value ::
  "device \<Rightarrow> nat \<Rightarrow> nat \<Rightarrow> 'v reduce_functor \<Rightarrow> (error + 'v option) option" where
  "run_value dev reduce_size work_count F =
     (case cuda_parallel_reduce dev reduce_size work_count F of
        None \<Rightarrow> None
      | Some (Inl (e, st)) \<Rightarrow> Some (Inl e)
      | Some (Inr st) \<Rightarrow> Some (Inr (view_after (serial_calls st))))"

text \<open>Examples for the statements: a device, and the functor that counts the indices.\<close>

definition example_device :: "nat \<Rightarrow> nat \<Rightarrow> bool \<Rightarrow> device" where
  "example_device max_threads max_blocks fails =
     \<lparr>reduction_thread_max = (\<lambda>reduce_size. max_threads), block_count_max = max_blocks,
      allocation_fails = fails\<rparr>"

definition count_functor :: "nat reduce_functor" where
  "count_functor = \<lparr>f_init = 0, f_apply = (\<lambda>iwork v. v + 1), f_join = (+)\<rparr>"

subsection \<open>Notions used in the statements\<close>

text \<open>
  All calls of the functor made by a launch of \<^verbatim>\<open>run_reduce_functor_on_cuda\<close>: the
  indices visited by the threads, block after block and thread after thread.
\<close>

definition launch_visits :: "nat \<Rightarrow> nat \<Rightarrow> nat \<Rightarrow> nat list option" where
  "launch_visits work_count gridDim blockDim =
     map_option concat
       (those (concat (map (\<lambda>blockIdx.
                  map (thread_visits work_count gridDim blockDim blockIdx) [0..<blockDim])
                [0..<gridDim])))"

text \<open>The set of the indices visited by one thread.\<close>

definition thread_indices :: "nat \<Rightarrow> nat \<Rightarrow> nat \<Rightarrow> nat \<Rightarrow> nat \<Rightarrow> nat set" where
  "thread_indices work_count gridDim blockDim blockIdx threadIdx =
     (case thread_visits work_count gridDim blockDim blockIdx threadIdx of
        None \<Rightarrow> {}
      | Some visited \<Rightarrow> set visited)"

text \<open>The arithmetic progression \<open>start\<close>, \<open>start + stride\<close>, ... below \<open>n\<close>.\<close>

definition strided :: "nat \<Rightarrow> nat \<Rightarrow> nat \<Rightarrow> nat list" where
  "strided start stride n =
     map (\<lambda>k. start + k * stride) [0..<(n - start + stride - 1) div stride]"

text \<open>
  The shared memory of a block after the tree reduction, in closed form: thread \<open>t\<close>
  has folded the functor over its arithmetic progression of indices.
\<close>

definition block_slots ::
  "'v reduce_functor \<Rightarrow> nat \<Rightarrow> nat \<Rightarrow> nat \<Rightarrow> nat \<Rightarrow> 'v list" where
  "block_slots F work_count gridDim blockDim blockIdx =
     reduce_shared_on_cuda (f_join F)
       (map (\<lambda>t. fold (f_apply F)
                   (strided (t + blockDim * blockIdx) (blockDim * gridDim) work_count)
                   (f_init F))
          [0..<blockDim])"

text \<open>The shared memory of a block once its work loops have ended, and no slots before.\<close>

definition block_shared_list ::
  "'v reduce_functor \<Rightarrow> nat \<Rightarrow> nat \<Rightarrow> nat \<Rightarrow> nat \<Rightarrow> 'v list" where
  "block_shared_list F work_count gridDim blockDim blockIdx =
     (case block_shared F work_count gridDim blockDim blockIdx of
        None \<Rightarrow> []
      | Some shared \<Rightarrow> shared)"

text \<open>The join of all values of a non-empty list, from left to right.\<close>

definition join_all :: "('v \<Rightarrow> 'v \<Rightarrow> 'v) \<Rightarrow> 'v list \<Rightarrow> 'v" where
  "join_all join vs = foldl join (hd vs) (tl vs)"

text \<open>
  The number of threads of the first kernel that \<^verbatim>\<open>cuda_parallel_reduce\<close> launches:
  \<^verbatim>\<open>thread_count\<close> in the path of one block, \<^verbatim>\<open>max_thread_count * block_count\<close> in the
  path of several blocks; \<open>None\<close> when the halving loop before the launch never ends.
\<close>

definition launch_thread_total :: "device \<Rightarrow> nat \<Rightarrow> nat \<Rightarrow> nat option" where
  "launch_thread_total dev reduce_size work_count =
     (let max_thread_count = reduction_thread_max dev reduce_size in
      if work_count < max_thread_count
      then shrink_thread_count work_count max_thread_count
      else map_option (\<lambda>block_count. max_thread_count * block_count)
             (shrink_block_count work_count max_thread_count
                (if max_thread_count < block_count_max dev
                 then max_thread_count else block_count_max dev)))"

text \<open>
  That launch is in range when the index arithmetic of its work loops does not wrap:
  its number of threads is below \<open>2 ^ 32\<close>, and the work count plus that number is at
  most \<open>2 ^ 64\<close>.
\<close>

definition launch_in_range :: "device \<Rightarrow> nat \<Rightarrow> nat \<Rightarrow> bool" where
  "launch_in_range dev reduce_size work_count =
     (case launch_thread_total dev reduce_size work_count of
        None \<Rightarrow> False
      | Some threads \<Rightarrow> threads < uint_range \<and> work_count + threads \<le> size_t_range)"

section \<open>Padding of the storage\<close>

lemma CudaWordCount_eq: "CudaWordCount sizeof_value = (sizeof_value + 3) div 4"
  by (simp add: CudaWordCount_def CudaWordType_size_def)

lemma CudaWordCount_least:
  "sizeof_value \<le> 4 * CudaWordCount sizeof_value
   \<and> 4 * CudaWordCount sizeof_value < sizeof_value + 4"
  unfolding CudaWordCount_eq by presburger

lemma storage_words_cases:
  "storage_words sizeof_value =
     (if 32 dvd CudaWordCount sizeof_value
      then CudaWordCount sizeof_value + 1 else CudaWordCount sizeof_value)"
  by (simp add: storage_words_def SharedMemoryBanks_def Let_def dvd_eq_mod_eq_0)

lemma storage_words_not_multiple: "\<not> 32 dvd storage_words sizeof_value"
  by (simp add: storage_words_def SharedMemoryBanks_def Let_def dvd_eq_mod_eq_0 mod_Suc)

text \<open>
  C8. With \<open>W\<close> the word count of the value type, the least number of four-byte words
  that hold the value, the member \<^verbatim>\<open>storage\<close> has \<open>W + 1\<close> words when \<open>W\<close> is a multiple of
  the 32 banks and \<open>W\<close> words otherwise; the number of storage words is never a multiple
  of 32.
\<close>

theorem storage_words_padding:
  "sizeof_value \<le> 4 * CudaWordCount sizeof_value
   \<and> 4 * CudaWordCount sizeof_value < sizeof_value + 4
   \<and> storage_words sizeof_value =
       (if 32 dvd CudaWordCount sizeof_value
        then CudaWordCount sizeof_value + 1 else CudaWordCount sizeof_value)
   \<and> \<not> 32 dvd storage_words sizeof_value"
  using CudaWordCount_least [of sizeof_value] storage_words_cases [of sizeof_value]
    storage_words_not_multiple [of sizeof_value]
  by (intro conjI) (elim conjE, assumption)+

text \<open>A value of 128 bytes has 32 words and 33 storage words; one of 8 bytes has 2 and 2.\<close>

theorem storage_words_padding_witness:
  "CudaWordCount 128 = 32 \<and> storage_words 128 = 33
   \<and> CudaWordCount 8 = 2 \<and> storage_words 8 = 2"
  using storage_words_padding [of 128] storage_words_padding [of 8]
  by (simp add: CudaWordCount_eq)

section \<open>The halving loops of the host\<close>

lemma shrink_thread_count_Some_pos:
  "shrink_thread_count work_count thread_count = Some y \<Longrightarrow> 0 < work_count"
  by (rule shrink_thread_count.raw_induct [where P = "\<lambda>w t y. 0 < w"])
     (auto split: if_splits)

lemma shrink_block_count_Some_pos:
  "shrink_block_count work_count max_thread_count block_count = Some y \<Longrightarrow> 0 < work_count"
  by (rule shrink_block_count.raw_induct [where P = "\<lambda>w m b y. 0 < w"])
     (auto split: if_splits)

lemma shrink_thread_count_zero: "shrink_thread_count 0 thread_count = None"
  using shrink_thread_count_Some_pos [of 0 thread_count]
  by (cases "shrink_thread_count 0 thread_count") auto

lemma shrink_block_count_zero: "shrink_block_count 0 max_thread_count block_count = None"
  using shrink_block_count_Some_pos [of 0 max_thread_count block_count]
  by (cases "shrink_block_count 0 max_thread_count block_count") auto

text \<open>
  With work to do the loops end, after some number \<open>k\<close> of halvings, and a count that
  was positive stays positive.
\<close>

lemma shrink_thread_count_halves:
  "0 < work_count \<Longrightarrow>
   \<exists>k. shrink_thread_count work_count thread_count = Some (thread_count div 2 ^ k)
       \<and> (0 < thread_count \<longrightarrow> 0 < thread_count div 2 ^ k)
       \<and> \<not> work_count \<le> thread_count div 2 ^ k div 2"
proof (induction thread_count rule: less_induct)
  case (less t)
  show ?case
  proof (cases "work_count \<le> t div 2")
    case True
    with less.prems have "t div 2 < t" by simp
    from less.IH [OF this less.prems] obtain k where
      k: "shrink_thread_count work_count (t div 2) = Some (t div 2 div 2 ^ k)"
         "0 < t div 2 \<longrightarrow> 0 < t div 2 div 2 ^ k"
         "\<not> work_count \<le> t div 2 div 2 ^ k div 2" by (elim exE conjE)
    have e: "t div 2 div 2 ^ k = t div 2 ^ Suc k" by (simp add: div_mult2_eq)
    have "shrink_thread_count work_count t = Some (t div 2 ^ Suc k)"
      using True k(1) e by (subst shrink_thread_count.simps) simp
    moreover have "0 < t div 2 ^ Suc k" using k(2) True less.prems e by simp
    moreover have "\<not> work_count \<le> t div 2 ^ Suc k div 2" using k(3) e by simp
    ultimately show ?thesis by blast
  next
    case False
    then have "shrink_thread_count work_count t = Some (t div 2 ^ 0)"
      by (subst shrink_thread_count.simps) simp
    with False show ?thesis by (intro exI [of _ 0]) simp
  qed
qed

lemma shrink_block_count_halves:
  "0 < work_count \<Longrightarrow>
   \<exists>k. shrink_block_count work_count m block_count = Some (block_count div 2 ^ k)
       \<and> (0 < block_count \<longrightarrow> m \<le> work_count \<longrightarrow> 0 < block_count div 2 ^ k)
       \<and> \<not> work_count \<le> m * (block_count div 2 ^ k div 2)"
proof (induction block_count rule: less_induct)
  case (less t)
  show ?case
  proof (cases "work_count \<le> m * (t div 2)")
    case True
    with less.prems have p: "0 < t div 2" by (cases "t div 2 = 0") auto
    then have "t div 2 < t" by simp
    from less.IH [OF this less.prems] obtain k where
      k: "shrink_block_count work_count m (t div 2) = Some (t div 2 div 2 ^ k)"
         "0 < t div 2 \<longrightarrow> m \<le> work_count \<longrightarrow> 0 < t div 2 div 2 ^ k"
         "\<not> work_count \<le> m * (t div 2 div 2 ^ k div 2)" by (elim exE conjE)
    have e: "t div 2 div 2 ^ k = t div 2 ^ Suc k" by (simp add: div_mult2_eq)
    have "shrink_block_count work_count m t = Some (t div 2 ^ Suc k)"
      using True k(1) e by (subst shrink_block_count.simps) simp
    moreover have "m \<le> work_count \<longrightarrow> 0 < t div 2 ^ Suc k" using k(2) p e by simp
    moreover have "\<not> work_count \<le> m * (t div 2 ^ Suc k div 2)" using k(3) e by simp
    ultimately show ?thesis by blast
  next
    case False
    then have "shrink_block_count work_count m t = Some (t div 2 ^ 0)"
      by (subst shrink_block_count.simps) simp
    with False show ?thesis by (intro exI [of _ 0]) simp
  qed
qed

text \<open>
  C5. The claim has the halving loops end for every work count, zero included, with
  counts of at least 1. At \<open>work_count = 0\<close> the condition
  \<^verbatim>\<open>work_count <= ( thread_count >> 1 )\<close> holds for every thread count, zero included:
  the loop of the single-block path never ends.
\<close>

theorem shrink_thread_count_diverges_without_work:
  "shrink_thread_count 0 max_thread_count = None"
  by (rule shrink_thread_count_zero)

text \<open>
  C4. The claim has \<open>run(0, f)\<close> end and deliver the identity value. With no work the
  host never reaches a kernel launch, whatever the limits of the device.
\<close>

theorem cuda_parallel_reduce_diverges_without_work:
  "cuda_parallel_reduce dev reduce_size 0 F = None
   \<and> run_finalize dev reduce_size 0 F = None"
  by (simp add: run_finalize_def cuda_parallel_reduce_def Let_def shrink_thread_count_zero
        shrink_block_count_zero)

section \<open>The work loop: which indices a thread visits\<close>

lemma strided_Nil: "\<not> start < n \<Longrightarrow> strided start stride n = []"
  by (cases "stride = 0") (simp_all add: strided_def)

lemma strided_count_Suc:
  assumes "0 < stride" "start < n"
  shows "(n - start + stride - 1) div stride
           = Suc ((n - (start + stride) + stride - 1) div stride)"
proof (cases "n - start < stride")
  case True
  then have "n - (start + stride) = 0" by simp
  moreover have "(n - start + stride - 1) div stride = 1"
  proof -
    obtain d where d: "n - start = Suc d" using assms(2) by (cases "n - start") auto
    with True have "d < stride" by simp
    have "(n - start + stride - 1) = d + stride" using d by simp
    then have "(n - start + stride - 1) div stride = (d + stride) div stride" by (rule arg_cong)
    also have "\<dots> = 1"
      using \<open>d < stride\<close> div_add_self2 [of stride d] by simp
    finally show ?thesis .
  qed
  ultimately show ?thesis using assms(1) by simp
next
  case False
  define m where "m = n - (start + stride)"
  have ns: "n - start = m + stride" using False by (simp add: m_def)
  have "n - start + stride - 1 = (m + stride - 1) + stride" using ns assms(1) by simp
  then have "(n - start + stride - 1) div stride = ((m + stride - 1) + stride) div stride"
    by (rule arg_cong)
  also have "\<dots> = Suc ((m + stride - 1) div stride)"
    using assms(1) div_add_self2 [of stride "m + stride - 1"] by simp
  finally show ?thesis by (simp only: m_def)
qed

lemma strided_Cons:
  assumes "0 < stride" "start < n"
  shows "strided start stride n = start # strided (start + stride) stride n"
  unfolding strided_def strided_count_Suc [OF assms] map_upt_Suc
  by (simp add: algebra_simps)

lemma work_loop_fold:
  assumes "0 < stride" and "n + stride \<le> size_t_range"
  shows "work_loop f n stride start v = Some (fold f (strided start stride n) v)"
proof (induction "n - start" arbitrary: start v rule: less_induct)
  case less
  show ?case
  proof (cases "start < n")
    case True
    then have "n - (start + stride) < n - start" using assms(1) by simp
    from less [OF this]
    have "work_loop f n stride (start + stride) (f start v)
            = Some (fold f (strided (start + stride) stride n) (f start v))" .
    moreover have "(start + stride) mod size_t_range = start + stride"
      using True assms(2) by simp
    ultimately show ?thesis
      using True by (subst work_loop.simps) (simp add: strided_Cons [OF assms(1) True])
  next
    case False
    then show ?thesis by (subst work_loop.simps) (simp add: strided_Nil)
  qed
qed

lemma fold_snoc_record: "fold (\<lambda>i seen. seen @ [i]) xs acc = acc @ xs"
  by (induction xs arbitrary: acc) simp_all

text \<open>
  A launch is in range when its number of threads is an \<^verbatim>\<open>unsigned int\<close> and the work
  count plus that number is a \<^verbatim>\<open>size_t\<close> or one more than the largest: then neither the
  stride, nor a start index, nor the loop index wraps around.
\<close>

lemma global_index_less:
  assumes "t < L" "b < G"
  shows "t + L * b < L * (G::nat)"
proof -
  have "t + L * b < L + L * b" using assms(1) by simp
  also have "\<dots> = L * Suc b" by simp
  also have "\<dots> \<le> L * G" using assms(2) by (intro mult_le_mono2) simp
  finally show ?thesis .
qed

lemma threads_pos:
  assumes "t < L" "b < G"
  shows "0 < L * (G::nat)"
proof -
  have "0 < L" "0 < G" using assms by linarith+
  then show ?thesis by simp
qed

lemma thread_visits_strided:
  assumes "t < blockDim" "b < gridDim"
    and "blockDim * gridDim < uint_range" and "n + blockDim * gridDim \<le> size_t_range"
  shows "thread_visits n gridDim blockDim b t
           = Some (strided (t + blockDim * b) (blockDim * gridDim) n)"
proof -
  have P: "0 < blockDim * gridDim" by (rule threads_pos [OF assms(1,2)])
  have g: "t + blockDim * b < uint_range"
    using global_index_less [OF assms(1,2)] assms(3) by simp
  show ?thesis
    using assms(3) g
    by (simp add: thread_visits_def work_loop_fold [OF P assms(4)] fold_snoc_record)
qed

lemma thread_value_fold:
  assumes "t < blockDim" "b < gridDim"
    and "blockDim * gridDim < uint_range" and "n + blockDim * gridDim \<le> size_t_range"
  shows "thread_value F n gridDim blockDim b t
     = Some (fold (f_apply F) (strided (t + blockDim * b) (blockDim * gridDim) n) (f_init F))"
proof -
  have P: "0 < blockDim * gridDim" by (rule threads_pos [OF assms(1,2)])
  have g: "t + blockDim * b < uint_range"
    using global_index_less [OF assms(1,2)] assms(3) by simp
  show ?thesis
    using assms(3) g by (simp add: thread_value_def work_loop_fold [OF P assms(4)])
qed

lemma strided_count_less:
  assumes "0 < stride"
  shows "(k::nat) < (n - start + stride - 1) div stride \<longleftrightarrow> start + k * stride < n"
proof -
  have "k < (n - start + stride - 1) div stride \<longleftrightarrow> Suc k \<le> (n - start + stride - 1) div stride"
    by auto
  also have "\<dots> \<longleftrightarrow> Suc k * stride \<le> n - start + stride - 1"
    using assms by (simp only: less_eq_div_iff_mult_less_eq)
  also have "\<dots> \<longleftrightarrow> start + k * stride < n" using assms by auto
  finally show ?thesis .
qed

lemma set_strided:
  assumes "0 < stride"
  shows "set (strided start stride n) = {i. i < n \<and> (\<exists>k. i = start + k * stride)}"
proof (rule set_eqI)
  fix i
  have "i \<in> set (strided start stride n)
          \<longleftrightarrow> (\<exists>k. k < (n - start + stride - 1) div stride \<and> i = start + k * stride)"
    unfolding strided_def by (simp add: image_iff Bex_def conj_commute)
  also have "\<dots> \<longleftrightarrow> (\<exists>k. start + k * stride < n \<and> i = start + k * stride)"
    by (simp only: strided_count_less [OF assms])
  also have "\<dots> \<longleftrightarrow> i < n \<and> (\<exists>k. i = start + k * stride)" by blast
  finally show "i \<in> set (strided start stride n)
          \<longleftrightarrow> i \<in> {i. i < n \<and> (\<exists>k. i = start + k * stride)}" by simp
qed

lemma distinct_strided: "0 < stride \<Longrightarrow> distinct (strided start stride n)"
  unfolding strided_def by (simp add: distinct_map inj_on_def)

lemma in_strided_mod:
  assumes "0 < stride" "start < stride"
  shows "i \<in> set (strided start stride n) \<longleftrightarrow> i < n \<and> i mod stride = start"
proof -
  have "(\<exists>k. i = start + k * stride) \<longleftrightarrow> i mod stride = start"
  proof
    assume "\<exists>k. i = start + k * stride"
    then show "i mod stride = start" using assms(2) by auto
  next
    assume "i mod stride = start"
    then have "i = start + (i div stride) * stride" by (metis add.commute div_mult_mod_eq)
    then show "\<exists>k. i = start + k * stride" ..
  qed
  then show ?thesis by (simp add: set_strided [OF assms(1)])
qed

lemma concat_blocks_threads:
  "concat (map (\<lambda>b. map (\<lambda>t. f (t + L * b)) [0..<L]) [0..<G]) = map f [0..<L * G]"
proof (induction G)
  case 0
  show ?case by simp
next
  case (Suc G)
  have shift: "map (\<lambda>t. t + L * G) [0..<L] = [L * G..<L + L * G]"
    by (rule map_add_upt)
  have "map (\<lambda>t. f (t + L * G)) [0..<L] = map f (map (\<lambda>t. t + L * G) [0..<L])"
    by (simp add: comp_def)
  then have blk: "map (\<lambda>t. f (t + L * G)) [0..<L] = map f [L * G..<L + L * G]"
    by (simp only: shift)
  have "[0..<L * G + L] = [0..<L * G] @ [L * G..<L * G + L]"
    by (rule upt_add_eq_append) simp
  then have split: "[0..<L * Suc G] = [0..<L * G] @ [L * G..<L + L * G]"
    by (simp add: add.commute)
  have "concat (map (\<lambda>b. map (\<lambda>t. f (t + L * b)) [0..<L]) [0..<Suc G])
          = concat (map (\<lambda>b. map (\<lambda>t. f (t + L * b)) [0..<L]) [0..<G])
            @ map (\<lambda>t. f (t + L * G)) [0..<L]"
    by simp
  also have "\<dots> = map f [0..<L * G] @ map f [L * G..<L + L * G]"
    by (simp only: Suc blk)
  also have "\<dots> = map f [0..<L * Suc G]"
    by (simp only: split map_append)
  finally show ?case .
qed

lemma count_mset_concat:
  "count (mset (concat xss)) i = sum_list (map (\<lambda>xs. count (mset xs) i) xss)"
  by (induction xss) simp_all

lemma count_mset_strided:
  assumes "0 < stride" "start < stride"
  shows "count (mset (strided start stride n)) i = (if i < n \<and> i mod stride = start then 1 else 0)"
proof -
  have "count (mset (strided start stride n)) i
          = (if i \<in> set (strided start stride n) then 1 else 0)"
    using distinct_strided [OF assms(1), of start n]
    by (simp add: distinct_count_atmost_1)
  then show ?thesis by (simp only: in_strided_mod [OF assms])
qed

lemma sum_list_indicator:
  "sum_list (map (\<lambda>g. if g = a then (1::nat) else 0) [0..<P]) = (if a < P then 1 else 0)"
  by (induction P) auto

lemma mset_concat_strided:
  assumes "0 < P"
  shows "mset (concat (map (\<lambda>g. strided g P n) [0..<P])) = mset [0..<n]"
proof (rule multiset_eqI)
  fix i
  have "count (mset (concat (map (\<lambda>g. strided g P n) [0..<P]))) i
          = sum_list (map (\<lambda>g. count (mset (strided g P n)) i) [0..<P])"
    by (simp add: count_mset_concat comp_def)
  also have "\<dots> = sum_list (map (\<lambda>g. if i < n \<and> i mod P = g then 1 else 0) [0..<P])"
    by (rule arg_cong [where f = sum_list], rule map_cong [OF refl])
       (simp add: count_mset_strided [OF assms])
  also have "\<dots> = (if i < n then 1 else 0)"
  proof (cases "i < n")
    case True
    then have "(\<lambda>g. if i < n \<and> i mod P = g then 1 else 0) = (\<lambda>g. if g = i mod P then (1::nat) else 0)"
      by auto
    then show ?thesis using True assms by (simp only: sum_list_indicator) simp
  next
    case False
    then show ?thesis by simp
  qed
  also have "\<dots> = count (mset [0..<n]) i"
    by (simp add: distinct_count_atmost_1)
  finally show "count (mset (concat (map (\<lambda>g. strided g P n) [0..<P]))) i = count (mset [0..<n]) i" .
qed

lemma those_map_Some: "those (map (\<lambda>x. Some (f x)) xs) = Some (map f xs)"
  by (induction xs) simp_all

lemma launch_visits_eq:
  assumes "0 < blockDim * gridDim"
    and "blockDim * gridDim < uint_range" and "n + blockDim * gridDim \<le> size_t_range"
  shows "launch_visits n gridDim blockDim
           = Some (concat (map (\<lambda>g. strided g (blockDim * gridDim) n) [0..<blockDim * gridDim]))"
proof -
  have row: "map (thread_visits n gridDim blockDim b) [0..<blockDim]
               = map (\<lambda>t. Some (strided (t + blockDim * b) (blockDim * gridDim) n)) [0..<blockDim]"
    if "b < gridDim" for b
    by (rule map_cong [OF refl]) (simp add: thread_visits_strided [OF _ that assms(2,3)])
  have "map (\<lambda>b. map (thread_visits n gridDim blockDim b) [0..<blockDim]) [0..<gridDim]
          = map (\<lambda>b. map (\<lambda>t. Some (strided (t + blockDim * b) (blockDim * gridDim) n))
                         [0..<blockDim]) [0..<gridDim]"
    by (rule map_cong [OF refl]) (simp add: row)
  then have "concat (map (\<lambda>b. map (thread_visits n gridDim blockDim b) [0..<blockDim])
                        [0..<gridDim])
          = concat (map (\<lambda>b. map (\<lambda>t. Some (strided (t + blockDim * b) (blockDim * gridDim) n))
                                  [0..<blockDim]) [0..<gridDim])"
    by (rule arg_cong)
  also have "\<dots> = map (\<lambda>g. Some (strided g (blockDim * gridDim) n)) [0..<blockDim * gridDim]"
    by (rule concat_blocks_threads)
  finally show ?thesis
    by (simp add: launch_visits_def those_map_Some)
qed

lemma launch_visits_mset:
  assumes "0 < blockDim * gridDim"
    and "blockDim * gridDim < uint_range" and "n + blockDim * gridDim \<le> size_t_range"
  shows "\<exists>xs. launch_visits n gridDim blockDim = Some xs \<and> mset xs = mset [0..<n]"
  using launch_visits_eq [OF assms] mset_concat_strided [OF assms(1)] by simp

lemma global_index_inj:
  assumes "t < L" "t' < L" "t + L * b = t' + L * (b'::nat)"
  shows "b = b' \<and> t = t'"
proof -
  have "(t + L * b) mod L = t" "(t' + L * b') mod L = t'" using assms(1,2) by simp_all
  with assms(3) have tt: "t = t'" by simp
  have "(t + L * b) div L = b" "(t' + L * b') div L = b'" using assms(1,2) by simp_all
  with assms(3) have "b = b'" by simp
  with tt show ?thesis by simp
qed

lemma thread_indices_eq:
  assumes "t < blockDim" "b < gridDim"
    and "blockDim * gridDim < uint_range" and "n + blockDim * gridDim \<le> size_t_range"
  shows "thread_indices n gridDim blockDim b t
           = {i. i < n \<and> i mod (blockDim * gridDim) = t + blockDim * b}"
proof -
  have g: "t + blockDim * b < blockDim * gridDim" by (rule global_index_less [OF assms(1,2)])
  have P: "0 < blockDim * gridDim" by (rule threads_pos [OF assms(1,2)])
  have "thread_indices n gridDim blockDim b t
          = set (strided (t + blockDim * b) (blockDim * gridDim) n)"
    by (simp add: thread_indices_def thread_visits_strided [OF assms])
  also have "\<dots> = {i. i < n \<and> i mod (blockDim * gridDim) = t + blockDim * b}"
    by (rule set_eqI) (simp add: in_strided_mod [OF P g])
  finally show ?thesis .
qed

lemma thread_indices_disjoint:
  assumes "t < blockDim" "b < gridDim" "t' < blockDim" "b' < gridDim" "(b, t) \<noteq> (b', t')"
    and "blockDim * gridDim < uint_range" and "n + blockDim * gridDim \<le> size_t_range"
  shows "thread_indices n gridDim blockDim b t \<inter> thread_indices n gridDim blockDim b' t' = {}"
proof -
  have "t + blockDim * b \<noteq> t' + blockDim * b'"
    using global_index_inj [OF assms(1) assms(3), of b b'] assms(5) by auto
  then show ?thesis
    unfolding thread_indices_eq [OF assms(1,2,6,7)] thread_indices_eq [OF assms(3,4,6,7)]
    by (intro equals0I) simp
qed

lemma thread_indices_union:
  assumes "0 < blockDim" "0 < gridDim"
    and "blockDim * gridDim < uint_range" and "n + blockDim * gridDim \<le> size_t_range"
  shows "(\<Union>b\<in>{..<gridDim}. \<Union>t\<in>{..<blockDim}. thread_indices n gridDim blockDim b t) = {..<n}"
proof (rule set_eqI)
  fix i
  let ?P = "blockDim * gridDim"
  have P: "0 < ?P" using assms(1,2) by simp
  show "i \<in> (\<Union>b\<in>{..<gridDim}. \<Union>t\<in>{..<blockDim}. thread_indices n gridDim blockDim b t)
          \<longleftrightarrow> i \<in> {..<n}"
  proof
    assume "i \<in> (\<Union>b\<in>{..<gridDim}. \<Union>t\<in>{..<blockDim}. thread_indices n gridDim blockDim b t)"
    then obtain b t where bt: "b < gridDim" "t < blockDim"
      and i: "i \<in> thread_indices n gridDim blockDim b t" by blast
    from i show "i \<in> {..<n}" unfolding thread_indices_eq [OF bt(2,1) assms(3,4)] by simp
  next
    assume "i \<in> {..<n}"
    then have i: "i < n" by simp
    define g where "g = i mod ?P"
    have g: "g < ?P" unfolding g_def using P by simp
    define b where "b = g div blockDim"
    define t where "t = g mod blockDim"
    have t: "t < blockDim" unfolding t_def using assms(1) by simp
    have b: "b < gridDim" unfolding b_def using g by (simp add: less_mult_imp_div_less mult.commute)
    have "t + blockDim * b = g" unfolding t_def b_def by simp
    then have "i \<in> thread_indices n gridDim blockDim b t"
      unfolding thread_indices_eq [OF t b assms(3,4)] using i g_def by simp
    with t b show "i \<in> (\<Union>b\<in>{..<gridDim}. \<Union>t\<in>{..<blockDim}. thread_indices n gridDim blockDim b t)"
      by blast
  qed
qed

lemma thread_visits_facts:
  assumes "t < blockDim" "b < gridDim"
    and "blockDim * gridDim < uint_range" and "n + blockDim * gridDim \<le> size_t_range"
  shows "\<exists>xs. thread_visits n gridDim blockDim b t = Some xs
            \<and> distinct xs
            \<and> set xs = {i. i < n \<and> (\<exists>k. i = (t + blockDim * b) + k * (blockDim * gridDim))}
            \<and> (\<forall>F :: 'v reduce_functor.
                  thread_value F n gridDim blockDim b t = Some (fold (f_apply F) xs (f_init F)))"
proof -
  have P: "0 < blockDim * gridDim" by (rule threads_pos [OF assms(1,2)])
  show ?thesis
    by (intro exI [of _ "strided (t + blockDim * b) (blockDim * gridDim) n"])
       (simp add: thread_visits_strided [OF assms] distinct_strided [OF P] set_strided [OF P]
          thread_value_fold [OF assms])
qed

text \<open>A stride that has wrapped around to zero: the loop stays at its index.\<close>

lemma work_loop_zero_stride:
  assumes "iwork < work_count" and "iwork < size_t_range"
  shows "work_loop functr work_count 0 iwork v = None"
proof -
  have stay: "\<not> (stride = 0 \<and> iwork' < work_count' \<and> iwork' < size_t_range)"
    if "work_loop functr' work_count' stride iwork' v' = Some y"
    for functr' :: "nat \<Rightarrow> 'a \<Rightarrow> 'a" and work_count' stride iwork' v' y
  proof (rule work_loop.raw_induct
          [where P = "\<lambda>f w s i v y. \<not> (s = 0 \<and> i < w \<and> i < size_t_range)"])
    fix wl :: "(nat \<Rightarrow> 'a \<Rightarrow> 'a) \<Rightarrow> nat \<Rightarrow> nat \<Rightarrow> nat \<Rightarrow> 'a \<Rightarrow> 'a option"
      and f w s i v y
    assume IH: "\<And>f w s i v y. wl f w s i v = Some y
                  \<Longrightarrow> \<not> (s = 0 \<and> i < w \<and> i < size_t_range)"
      and body: "(if i < w then wl f w s ((i + s) mod size_t_range) (f i v) else Some v) = Some y"
    show "\<not> (s = 0 \<and> i < w \<and> i < size_t_range)"
    proof
      assume a: "s = 0 \<and> i < w \<and> i < size_t_range"
      then have "wl f w s i (f i v) = Some y" using body by simp
      from IH [OF this] a show False by simp
    qed
  next
    show "work_loop functr' work_count' stride iwork' v' = Some y" by (rule that)
  qed
  from stay [of functr work_count 0 iwork v] assms show ?thesis
    by (cases "work_loop functr work_count 0 iwork v") auto
qed

text \<open>
  C1, as stated for every launch, fails: with 4194304 blocks of 1024 threads the stride
  \<^verbatim>\<open>blockDim.x * gridDim.x\<close> is \<open>2 ^ 32\<close>, which is 0 in \<^verbatim>\<open>unsigned int\<close>, and the loop
  of thread 0 of block 0 over a single index never ends.
\<close>

theorem grid_stride_wraps_to_zero_stride:
  "thread_visits 1 4194304 1024 0 0 = None"
proof -
  have "(1024 * 4194304) mod uint_range = (0::nat)" by (simp add: uint_range_def)
  moreover have "(0::nat) < size_t_range" by (simp add: size_t_range_def)
  ultimately show ?thesis
    by (simp add: thread_visits_def work_loop_zero_stride)
qed

text \<open>
  C1, amended. For every work count \<open>n\<close> and every launch of \<open>gridDim\<close> blocks of \<open>blockDim\<close>
  threads, at least one of each, that is in range (\<open>P = blockDim * gridDim\<close> below
  \<open>2 ^ 32\<close> and \<open>n + P\<close> at most \<open>2 ^ 64\<close>): the thread with global index
  \<open>g = threadIdx + blockDim * blockIdx\<close> ends its loop, and calls the functor once at each
  index of \<open>{g, g + P, g + 2 P, ...}\<close> below \<open>n\<close>, and at no other; the index sets of two
  different threads are disjoint and their union is \<open>[0, n)\<close>; all calls of the launch
  together are one call per index of \<open>[0, n)\<close>.
\<close>

theorem grid_stride_coverage:
  assumes "0 < blockDim" and "0 < gridDim"
    and "blockDim * gridDim < uint_range" and "n + blockDim * gridDim \<le> size_t_range"
  shows "(\<forall>b<gridDim. \<forall>t<blockDim.
            \<exists>xs. thread_visits n gridDim blockDim b t = Some xs
               \<and> distinct xs
               \<and> set xs = {i. i < n \<and> (\<exists>k. i = (t + blockDim * b) + k * (blockDim * gridDim))}
               \<and> (\<forall>F :: 'v reduce_functor.
                     thread_value F n gridDim blockDim b t
                       = Some (fold (f_apply F) xs (f_init F))))
       \<and> (\<forall>b<gridDim. \<forall>t<blockDim. \<forall>b'<gridDim. \<forall>t'<blockDim.
            (b, t) \<noteq> (b', t') \<longrightarrow>
            thread_indices n gridDim blockDim b t \<inter> thread_indices n gridDim blockDim b' t' = {})
       \<and> (\<Union>b\<in>{..<gridDim}. \<Union>t\<in>{..<blockDim}. thread_indices n gridDim blockDim b t) = {..<n}
       \<and> (\<exists>visited. launch_visits n gridDim blockDim = Some visited
                     \<and> mset visited = mset [0..<n])"
proof (intro conjI allI impI)
  fix b t assume "b < gridDim" "t < blockDim"
  then show "\<exists>xs. thread_visits n gridDim blockDim b t = Some xs
               \<and> distinct xs
               \<and> set xs = {i. i < n \<and> (\<exists>k. i = (t + blockDim * b) + k * (blockDim * gridDim))}
               \<and> (\<forall>F :: 'v reduce_functor.
                     thread_value F n gridDim blockDim b t
                       = Some (fold (f_apply F) xs (f_init F)))"
    using assms(3,4) by (intro thread_visits_facts)
next
  fix b t b' t'
  assume "b < gridDim" "t < blockDim" "b' < gridDim" "t' < blockDim" "(b, t) \<noteq> (b', t')"
  then show "thread_indices n gridDim blockDim b t \<inter> thread_indices n gridDim blockDim b' t' = {}"
    using assms(3,4) by (intro thread_indices_disjoint)
next
  show "(\<Union>b\<in>{..<gridDim}. \<Union>t\<in>{..<blockDim}. thread_indices n gridDim blockDim b t) = {..<n}"
    by (rule thread_indices_union [OF assms])
next
  show "\<exists>visited. launch_visits n gridDim blockDim = Some visited \<and> mset visited = mset [0..<n]"
    using assms by (intro launch_visits_mset) simp
qed

text \<open>Seven indices on two blocks of two threads: thread 0 of block 1 visits 2 and 6.\<close>

theorem grid_stride_coverage_witness:
  "(\<exists>xs. thread_visits 7 2 2 1 0 = Some xs \<and> xs = [2, 6])
   \<and> thread_indices 7 2 2 0 1 \<inter> thread_indices 7 2 2 1 0 = {}
   \<and> (\<exists>visited. launch_visits 7 2 2 = Some visited \<and> mset visited = mset [0..<7])"
proof -
  have h: "0 < (2::nat)" by simp
  have r1: "(2::nat) * 2 < uint_range" by (simp add: uint_range_def)
  have r2: "(7::nat) + 2 * 2 \<le> size_t_range" by (simp add: size_t_range_def)
  note c = grid_stride_coverage [OF h h r1 r2]
  have v: "thread_visits 7 2 2 1 0 = Some [2, 6]"
    by (simp add: thread_visits_def work_loop.simps uint_range_def size_t_range_def)
  have "thread_indices 7 2 2 0 1 \<inter> thread_indices 7 2 2 1 0 = {}"
    using c [THEN conjunct2, THEN conjunct1, rule_format, of 0 1 1 0] by simp
  moreover have "\<exists>visited. launch_visits 7 2 2 = Some visited \<and> mset visited = mset [0..<7]"
    by (rule c [THEN conjunct2, THEN conjunct2, THEN conjunct2])
  ultimately show ?thesis using v by simp
qed

section \<open>The tree reduction of a block\<close>

lemma length_reduce_step [simp]: "length (reduce_step join j shared) = length shared"
  by (simp add: reduce_step_def)

lemma nth_reduce_step:
  "i < length shared \<Longrightarrow>
   reduce_step join j shared ! i
     = (if i < j then join (shared ! i) (shared ! (i + j)) else shared ! i)"
  by (simp add: reduce_step_def)

lemma reduce_step_reads_in_range:
  "j \<le> length shared \<Longrightarrow> i < j div 2 \<Longrightarrow> i + j div 2 < length shared"
  by linarith

lemma length_reduce_loop [simp]: "length (reduce_loop join j shared) = length shared"
  by (induction join j shared rule: reduce_loop.induct) (subst reduce_loop.simps, simp)

lemma foldl_join_assoc:
  assumes "\<And>a b c. join (join a b) c = join a (join b c)"
  shows "foldl join (join a b) xs = join a (foldl join b xs)"
  by (induction xs arbitrary: b) (simp_all add: assms)

lemma join_all_append:
  assumes assoc: "\<And>a b c. join (join a b) c = join a (join b c)"
    and "xs \<noteq> []" "ys \<noteq> []"
  shows "join_all join (xs @ ys) = join (join_all join xs) (join_all join ys)"
proof -
  obtain x xs' where xs: "xs = x # xs'" using assms(2) by (cases xs) auto
  obtain y ys' where ys: "ys = y # ys'" using assms(3) by (cases ys) auto
  have "join_all join (xs @ ys) = foldl join (join (foldl join x xs') y) ys'"
    by (simp add: join_all_def xs ys)
  also have "\<dots> = join (foldl join x xs') (foldl join y ys')"
    by (rule foldl_join_assoc [OF assoc])
  finally show ?thesis by (simp add: join_all_def xs ys)
qed

lemma foldl_join_zip:
  assumes assoc: "\<And>a b c. join (join a b) c = join a (join b c)"
    and comm: "\<And>a b. join a b = join b a"
    and "length xs = length ys"
  shows "foldl join (join a b) (map2 join xs ys) = join (foldl join a xs) (foldl join b ys)"
  using assms(3)
proof (induction xs ys arbitrary: a b rule: list_induct2)
  case Nil
  show ?case by simp
next
  case (Cons x xs y ys)
  have "join (join a b) (join x y) = join a (join b (join x y))" by (rule assoc)
  also have "join b (join x y) = join (join b x) y" by (rule assoc [symmetric])
  also have "join b x = join x b" by (rule comm)
  also have "join (join x b) y = join x (join b y)" by (rule assoc)
  also have "join a (join x (join b y)) = join (join a x) (join b y)" by (rule assoc [symmetric])
  finally have sw: "join (join a b) (join x y) = join (join a x) (join b y)" .
  show ?case using Cons.IH [of "join a x" "join b y"] by (simp add: sw)
qed

lemma join_all_zip:
  assumes assoc: "\<And>a b c. join (join a b) c = join a (join b c)"
    and comm: "\<And>a b. join a b = join b a"
    and "length xs = length ys" "xs \<noteq> []"
  shows "join_all join (map2 join xs ys) = join (join_all join xs) (join_all join ys)"
proof -
  obtain x xs' where xs: "xs = x # xs'" using assms(4) by (cases xs) auto
  with assms(3) obtain y ys' where ys: "ys = y # ys'" by (cases ys) auto
  have len: "length xs' = length ys'" using assms(3) xs ys by simp
  show ?thesis
    by (simp add: join_all_def xs ys foldl_join_zip [OF assoc comm len])
qed

lemma take_reduce_step:
  assumes "2 * j \<le> length shared"
  shows "take j (reduce_step join j shared)
           = map2 join (take j shared) (take j (drop j shared))"
proof (rule nth_equalityI)
  show "length (take j (reduce_step join j shared))
          = length (map2 join (take j shared) (take j (drop j shared)))"
    using assms by simp
next
  fix i assume "i < length (take j (reduce_step join j shared))"
  then have i: "i < j" "i < length shared" "i + j < length shared" using assms by simp_all
  have "take j (reduce_step join j shared) ! i = join (shared ! i) (shared ! (i + j))"
    using i by (simp add: nth_reduce_step)
  moreover have "map2 join (take j shared) (take j (drop j shared)) ! i
                   = join (shared ! i) (shared ! (i + j))"
    using i assms by (simp add: add.commute)
  ultimately show "take j (reduce_step join j shared) ! i
                     = map2 join (take j shared) (take j (drop j shared)) ! i" by simp
qed

lemma reduce_loop_power_of_two:
  assumes assoc: "\<And>a b c. join (join a b) c = join a (join b c)"
    and comm: "\<And>a b. join a b = join b a"
  shows "2 ^ k \<le> length shared \<Longrightarrow>
         reduce_loop join (2 ^ k) shared ! 0 = join_all join (take (2 ^ k) shared)"
proof (induction k arbitrary: shared)
  case 0
  then obtain x xs where s: "shared = x # xs" by (cases shared) auto
  have "reduce_loop join 1 shared = reduce_step join 0 shared"
    by (subst reduce_loop.simps, subst reduce_loop.simps) simp
  then show ?case by (simp add: s nth_reduce_step join_all_def)
next
  case (Suc k)
  define j :: nat where "j = 2 ^ k"
  have j2: "2 ^ Suc k = 2 * j" by (simp add: j_def)
  have len: "2 * j \<le> length shared" using Suc.prems by (simp add: j_def)
  have pos: "0 < j" by (simp add: j_def)
  have ne1: "take j shared \<noteq> []" using len pos by auto
  have ne2: "take j (drop j shared) \<noteq> []" using len pos by auto
  have l2: "length (take j shared) = length (take j (drop j shared))" using len by simp
  have "reduce_loop join (2 * j) shared = reduce_loop join j (reduce_step join j shared)"
    using pos by (subst reduce_loop.simps) simp
  moreover have "reduce_loop join j (reduce_step join j shared) ! 0
               = join_all join (take j (reduce_step join j shared))"
    using Suc.IH [of "reduce_step join j shared"] len by (simp add: j_def)
  ultimately have "reduce_loop join (2 * j) shared ! 0
               = join_all join (take j (reduce_step join j shared))" by simp
  also have "\<dots> = join_all join (map2 join (take j shared) (take j (drop j shared)))"
    by (simp only: take_reduce_step [OF len])
  also have "\<dots> = join (join_all join (take j shared)) (join_all join (take j (drop j shared)))"
    by (rule join_all_zip [OF assoc comm l2 ne1])
  also have "\<dots> = join_all join (take j shared @ take j (drop j shared))"
    by (rule join_all_append [OF assoc ne1 ne2, symmetric])
  also have "take j shared @ take j (drop j shared) = take (2 * j) shared"
    by (simp add: take_add [symmetric] mult_2)
  finally show ?case by (simp only: j2)
qed

lemma reduce_shared_join_all:
  assumes assoc: "\<And>a b c. join (join a b) c = join a (join b c)"
    and comm: "\<And>a b. join a b = join b a"
    and "length shared = 2 ^ k"
  shows "reduce_shared_on_cuda join shared ! 0 = join_all join shared"
  using reduce_loop_power_of_two [OF assoc comm, of k shared] assms(3)
  by (simp add: reduce_shared_on_cuda_def)

text \<open>
  C2, as stated for every number of threads, fails: with three threads the only step
  that joins anything has \<open>j = 1\<close> and joins slot 1 into slot 0; slot 2 is never read.
\<close>

theorem reduce_shared_on_cuda_three_threads:
  "reduce_shared_on_cuda (+) [1, 1, 1 :: nat] ! 0 = 2 \<and> join_all (+) [1, 1, 1 :: nat] = 3"
  by (simp add: reduce_shared_on_cuda_def reduce_loop.simps reduce_step_def join_all_def)

text \<open>
  C2, amended. For a number of threads that is a power of two and an associative and
  commutative join, the tree reduction (a total function: the loop ends for every
  number of threads) keeps the number of slots and leaves in slot 0 the join of the
  initial values of all slots.
\<close>

theorem reduce_shared_on_cuda_power_of_two:
  assumes "\<forall>a b c. join (join a b) c = join a (join b c)"
    and "\<forall>a b. join a b = join b a"
    and "length shared = 2 ^ k"
  shows "length (reduce_shared_on_cuda join shared) = length shared
         \<and> reduce_shared_on_cuda join shared ! 0 = join_all join shared"
proof -
  have assoc: "\<And>a b c. join (join a b) c = join a (join b c)" using assms(1) by blast
  have comm: "\<And>a b. join a b = join b a" using assms(2) by blast
  show ?thesis
    using reduce_shared_join_all [OF assoc comm assms(3)]
    by (simp add: reduce_shared_on_cuda_def)
qed

text \<open>Four threads holding 1, 2, 3 and 4 under addition: slot 0 ends with 10.\<close>

theorem reduce_shared_on_cuda_power_of_two_witness:
  "length [1, 2, 3, 4 :: nat] = 2 ^ 2
   \<and> reduce_shared_on_cuda (+) [1, 2, 3, 4 :: nat] ! 0 = 10"
proof -
  have l: "length [1, 2, 3, 4 :: nat] = 2 ^ 2" by simp
  have a: "\<forall>a b c :: nat. (a + b) + c = a + (b + c)" by simp
  have c: "\<forall>a b :: nat. a + b = b + a" by simp
  show ?thesis
    using reduce_shared_on_cuda_power_of_two [OF a c l] by (simp add: join_all_def)
qed

section \<open>The kernels\<close>

lemma fold_finalize_functor_thread_nonzero:
  "0 \<notin> set ts \<Longrightarrow> fold (finalize_functor_thread gridDim blockIdx shared) ts st = st"
  by (induction ts arbitrary: st) (auto simp: finalize_functor_thread_def)

lemma CudaParallelReduceFinalizeFunctor_eq:
  "CudaParallelReduceFinalizeFunctor gridDim blockIdx blockDim shared st =
     (if gridDim = 1 \<and> 0 < blockDim
      then st\<lparr>serial_calls := serial_calls st @
             [\<lparr>call_gridDim = 1, call_blockIdx = blockIdx,
               call_threadIdx = 0, call_value = shared ! 0\<rparr>]\<rparr>
      else st)"
proof (cases "0 < blockDim")
  case False
  then show ?thesis by (simp add: CudaParallelReduceFinalizeFunctor_def)
next
  case True
  then have upt: "[0..<blockDim] = 0 # [1..<blockDim]" by (simp add: upt_conv_Cons)
  have "0 \<notin> set [1..<blockDim]" by simp
  then have rest: "fold (finalize_functor_thread gridDim blockIdx shared) [1..<blockDim] s = s" for s
    by (rule fold_finalize_functor_thread_nonzero)
  show ?thesis
    using True
    by (simp only: CudaParallelReduceFinalizeFunctor_def upt fold_simps rest)
       (auto simp: finalize_functor_thread_def)
qed

lemma length_reduce_shared_on_cuda [simp]:
  "length (reduce_shared_on_cuda join shared) = length shared"
  by (simp add: reduce_shared_on_cuda_def)

lemma length_block_slots [simp]: "length (block_slots F n gridDim blockDim b) = blockDim"
  by (simp add: block_slots_def)

lemma block_thread_values_eq:
  assumes "b < gridDim"
    and "blockDim * gridDim < uint_range" and "n + blockDim * gridDim \<le> size_t_range"
  shows "block_thread_values F n gridDim blockDim b
           = Some (map (\<lambda>t. fold (f_apply F)
                              (strided (t + blockDim * b) (blockDim * gridDim) n) (f_init F))
                     [0..<blockDim])"
proof -
  have "map (thread_value F n gridDim blockDim b) [0..<blockDim]
          = map (\<lambda>t. Some (fold (f_apply F)
                              (strided (t + blockDim * b) (blockDim * gridDim) n) (f_init F)))
              [0..<blockDim]"
    by (rule map_cong [OF refl]) (simp add: thread_value_fold [OF _ assms])
  then show ?thesis by (simp only: block_thread_values_def those_map_Some)
qed

lemma block_shared_eq:
  assumes "b < gridDim"
    and "blockDim * gridDim < uint_range" and "n + blockDim * gridDim \<le> size_t_range"
  shows "block_shared F n gridDim blockDim b = Some (block_slots F n gridDim blockDim b)"
  by (simp add: block_shared_def block_slots_def block_thread_values_eq [OF assms])

lemma those_length: "those xs = Some ys \<Longrightarrow> length ys = length xs"
  by (induction xs arbitrary: ys) (auto split: option.splits)

lemma block_shared_length:
  assumes "block_shared F n gridDim blockDim b = Some shared"
  shows "length shared = blockDim"
proof -
  from assms obtain vals where
    vals: "block_thread_values F n gridDim blockDim b = Some vals"
    and sh: "shared = reduce_shared_on_cuda (f_join F) vals"
    by (auto simp: block_shared_def)
  from vals have "length vals = blockDim"
    unfolding block_thread_values_def by (auto dest: those_length)
  with sh show ?thesis by simp
qed

lemma block_shared_list_eq:
  "block_shared F n gridDim blockDim b = Some shared
     \<Longrightarrow> block_shared_list F n gridDim blockDim b = shared"
  by (simp add: block_shared_list_def)

text \<open>
  A launch of the first kernel returns exactly when the work loops of all its blocks
  end; the finalize functor has then run block by block.
\<close>

lemma fold_blocks_None:
  "fold (\<lambda>blockIdx r. do {
             s \<leftarrow> r;
             shared \<leftarrow> block_shared F n gridDim blockDim blockIdx;
             Some (finalize gridDim blockIdx blockDim shared s)
           }) bs None = None"
  by (induction bs) simp_all

lemma fold_blocks_eq:
  assumes "\<forall>b\<in>set bs. block_shared F n gridDim blockDim b = Some (sh b)"
  shows "fold (\<lambda>blockIdx r. do {
             s \<leftarrow> r;
             shared \<leftarrow> block_shared F n gridDim blockDim blockIdx;
             Some (finalize gridDim blockIdx blockDim shared s)
           }) bs (Some st)
         = Some (fold (\<lambda>b. finalize gridDim b blockDim (sh b)) bs st)"
  using assms by (induction bs arbitrary: st) simp_all

lemma fold_blocks_Some:
  assumes "fold (\<lambda>blockIdx r. do {
             s \<leftarrow> r;
             shared \<leftarrow> block_shared F n gridDim blockDim blockIdx;
             Some (finalize gridDim blockIdx blockDim shared s)
           }) bs (Some st) = Some st'"
  shows "\<forall>b\<in>set bs. \<exists>shared. block_shared F n gridDim blockDim b = Some shared"
  using assms
proof (induction bs arbitrary: st)
  case Nil
  show ?case by simp
next
  case (Cons b bs)
  show ?case
  proof (cases "block_shared F n gridDim blockDim b")
    case None
    with Cons.prems show ?thesis by (simp add: fold_blocks_None)
  next
    case (Some shared)
    with Cons.prems Cons.IH show ?thesis by simp
  qed
qed

lemma run_reduce_functor_on_cuda_eq:
  assumes "\<forall>b<gridDim. block_shared F n gridDim blockDim b = Some (sh b)"
  shows "run_reduce_functor_on_cuda F finalize gridDim blockDim n st
     = Some (fold (\<lambda>b. finalize gridDim b blockDim (sh b)) [0..<gridDim] st)"
  unfolding run_reduce_functor_on_cuda_def
  by (rule fold_blocks_eq) (use assms in simp)

lemma run_reduce_functor_on_cuda_Some:
  assumes "run_reduce_functor_on_cuda F finalize gridDim blockDim n st = Some st'"
  shows "\<forall>b<gridDim. block_shared F n gridDim blockDim b
                        = Some (block_shared_list F n gridDim blockDim b)"
proof (intro allI impI)
  fix b assume "b < gridDim"
  then have "b \<in> set [0..<gridDim]" by simp
  with fold_blocks_Some [of F n gridDim blockDim finalize "[0..<gridDim]" st st',
      OF assms [unfolded run_reduce_functor_on_cuda_def]]
  obtain shared where "block_shared F n gridDim blockDim b = Some shared" by blast
  then show "block_shared F n gridDim blockDim b
               = Some (block_shared_list F n gridDim blockDim b)"
    by (simp add: block_shared_list_def)
qed

lemma run_reduce_functor_on_cuda_serial:
  assumes "block_shared F n 1 blockDim 0 = Some shared"
  shows "run_reduce_functor_on_cuda F CudaParallelReduceFinalizeFunctor 1 blockDim n st
     = Some (if 0 < blockDim
             then st\<lparr>serial_calls := serial_calls st @
                    [\<lparr>call_gridDim = 1, call_blockIdx = 0, call_threadIdx = 0,
                      call_value = shared ! 0\<rparr>]\<rparr>
             else st)"
proof -
  have "\<forall>b<1. block_shared F n 1 blockDim b = Some ((\<lambda>b. shared) b)" using assms by simp
  from run_reduce_functor_on_cuda_eq [OF this] show ?thesis
    by (simp add: CudaParallelReduceFinalizeFunctor_eq)
qed

lemma fold_FinalizeBlock:
  assumes "0 < blockDim"
  shows "k \<le> length (block_value st) \<Longrightarrow>
     fold (\<lambda>b. CudaParallelReduceFinalizeBlock gridDim b blockDim (g b)) [0..<k] st
       = st\<lparr>block_value := map (\<lambda>b. Some (g b ! 0)) [0..<k] @ drop k (block_value st),
             block_writes := block_writes st @ map (\<lambda>b. (b, g b ! 0)) [0..<k]\<rparr>"
proof (induction k)
  case 0
  show ?case by simp
next
  case (Suc k)
  let ?bv = "block_value st"
  have k: "k < length ?bv" using Suc.prems by simp
  have "(map (\<lambda>b. Some (g b ! 0)) [0..<k] @ drop k ?bv)[k := Some (g k ! 0)]
          = map (\<lambda>b. Some (g b ! 0)) [0..<k] @ (drop k ?bv)[0 := Some (g k ! 0)]"
    by (simp add: list_update_append)
  also have "(drop k ?bv)[0 := Some (g k ! 0)] = Some (g k ! 0) # drop (Suc k) ?bv"
    using k by (simp add: Cons_nth_drop_Suc [symmetric])
  finally have upd: "(map (\<lambda>b. Some (g b ! 0)) [0..<k] @ drop k ?bv)[k := Some (g k ! 0)]
          = map (\<lambda>b. Some (g b ! 0)) [0..<Suc k] @ drop (Suc k) ?bv" by simp
  have "fold (\<lambda>b. CudaParallelReduceFinalizeBlock gridDim b blockDim (g b)) [0..<Suc k] st
          = CudaParallelReduceFinalizeBlock gridDim k blockDim (g k)
              (st\<lparr>block_value := map (\<lambda>b. Some (g b ! 0)) [0..<k] @ drop k ?bv,
                   block_writes := block_writes st @ map (\<lambda>b. (b, g b ! 0)) [0..<k]\<rparr>)"
    using Suc.IH k by simp
  also have "\<dots> = st\<lparr>block_value := map (\<lambda>b. Some (g b ! 0)) [0..<Suc k] @ drop (Suc k) ?bv,
                         block_writes := block_writes st @ map (\<lambda>b. (b, g b ! 0)) [0..<Suc k]\<rparr>"
    using assms by (simp only: CudaParallelReduceFinalizeBlock_def if_True upd [symmetric]) simp
  finally show ?case .
qed

lemma run_reduce_functor_on_cuda_block:
  assumes "0 < blockDim" "length (block_value st) = gridDim"
    and "\<forall>b<gridDim. block_shared F n gridDim blockDim b = Some (sh b)"
  shows "run_reduce_functor_on_cuda F CudaParallelReduceFinalizeBlock gridDim blockDim n st
     = Some (st\<lparr>block_value := map (\<lambda>b. Some (sh b ! 0)) [0..<gridDim],
                 block_writes := block_writes st @ map (\<lambda>b. (b, sh b ! 0)) [0..<gridDim]\<rparr>)"
  using fold_FinalizeBlock [OF assms(1), of gridDim st gridDim sh] assms(2)
  by (simp add: run_reduce_functor_on_cuda_eq [OF assms(3)])

lemma load_block_result_written:
  "load_block_result (map Some vs) (length vs) = Some vs"
proof -
  have "map (\<lambda>i. if i < length (map Some vs) then map Some vs ! i else None) [0..<length vs]
          = map (\<lambda>i. Some (vs ! i)) [0..<length vs]"
    by (rule map_cong [OF refl]) simp
  then show ?thesis
    by (simp only: load_block_result_def those_map_Some map_nth)
qed

lemma run_reduce_operator_on_cuda_serial:
  assumes "block_value st = map Some vs" "0 < length vs"
  shows "run_reduce_operator_on_cuda F CudaParallelReduceFinalizeFunctor 1 (length vs) st
     = Inr (st\<lparr>serial_calls := serial_calls st @
                    [\<lparr>call_gridDim = 1, call_blockIdx = 0, call_threadIdx = 0,
                      call_value = reduce_shared_on_cuda (f_join F) vs ! 0\<rparr>]\<rparr>)"
  using assms(2)
  by (simp add: run_reduce_operator_on_cuda_def assms(1) load_block_result_written
        CudaParallelReduceFinalizeFunctor_eq)

section \<open>The host function\<close>

lemma cuda_parallel_reduce_single:
  assumes "work_count < reduction_thread_max dev reduce_size"
    and "shrink_thread_count work_count (reduction_thread_max dev reduce_size) = Some T"
    and "0 < T"
    and "block_shared F work_count 1 T 0 = Some shared"
  shows "cuda_parallel_reduce dev reduce_size work_count F
     = Some (Inr \<lparr>events = [Launch_reduce_functor Finalize_functor 1 T (reduce_size * T)],
                  block_value = [],
                  serial_calls =
                    [\<lparr>call_gridDim = 1, call_blockIdx = 0, call_threadIdx = 0,
                      call_value = shared ! 0\<rparr>],
                  block_writes = []\<rparr>)"
  using assms(1,2,3)
  by (simp add: cuda_parallel_reduce_def Let_def run_reduce_functor_on_cuda_serial [OF assms(4)]
        log_event_def initial_state_def del: One_nat_def)

lemma cuda_parallel_reduce_alloc_fails:
  assumes "\<not> work_count < reduction_thread_max dev reduce_size"
    and "shrink_block_count work_count (reduction_thread_max dev reduce_size)
           (if reduction_thread_max dev reduce_size < block_count_max dev
            then reduction_thread_max dev reduce_size else block_count_max dev) = Some C"
    and "allocation_fails dev"
  shows "cuda_parallel_reduce dev reduce_size work_count F
           = Some (Inl (Allocation_failure, initial_state))"
  using assms
  by (simp add: cuda_parallel_reduce_def Let_def allocate_memory_def)

lemma cuda_parallel_reduce_multi:
  assumes multi: "\<not> work_count < reduction_thread_max dev reduce_size"
    and pos: "0 < reduction_thread_max dev reduce_size"
    and C: "shrink_block_count work_count (reduction_thread_max dev reduce_size)
           (if reduction_thread_max dev reduce_size < block_count_max dev
            then reduction_thread_max dev reduce_size else block_count_max dev) = Some C"
    and Cpos: "0 < C"
    and alloc: "\<not> allocation_fails dev"
    and blocks: "\<forall>b<C. block_shared F work_count C (reduction_thread_max dev reduce_size) b
                          = Some (sh b)"
  shows "cuda_parallel_reduce dev reduce_size work_count F
     = Some (Inr \<lparr>events =
                    [Allocate_memory reduce_size C,
                     Launch_reduce_functor Finalize_block C (reduction_thread_max dev reduce_size)
                       (reduce_size * reduction_thread_max dev reduce_size),
                     Launch_reduce_operator Finalize_functor 1 C (reduce_size * C),
                     Deallocate_memory],
                  block_value = [],
                  serial_calls =
                    [\<lparr>call_gridDim = 1, call_blockIdx = 0, call_threadIdx = 0,
                      call_value =
                        reduce_shared_on_cuda (f_join F) (map (\<lambda>b. sh b ! 0) [0..<C]) ! 0\<rparr>],
                  block_writes = map (\<lambda>b. (b, sh b ! 0)) [0..<C]\<rparr>)"
proof -
  let ?m = "reduction_thread_max dev reduce_size"
  let ?vs = "map (\<lambda>b. sh b ! 0) [0..<C]"
  define st1 :: "'a state" where
    "st1 = \<lparr>events = [Allocate_memory reduce_size C], block_value = replicate C None,
            serial_calls = [], block_writes = []\<rparr>"
  define st1' where
    "st1' = log_event (Launch_reduce_functor Finalize_block C ?m (reduce_size * ?m)) st1"
  define st2 where
    "st2 = st1'\<lparr>block_value := map Some ?vs, block_writes := map (\<lambda>b. (b, sh b ! 0)) [0..<C]\<rparr>"
  define st2' where
    "st2' = log_event (Launch_reduce_operator Finalize_functor 1 C (reduce_size * C)) st2"
  have a: "allocate_memory dev reduce_size C initial_state = Inr st1"
    using alloc by (simp add: allocate_memory_def initial_state_def st1_def)
  have len1: "length (block_value st1') = C" by (simp add: st1'_def st1_def log_event_def)
  have k1: "run_reduce_functor_on_cuda F CudaParallelReduceFinalizeBlock C ?m work_count st1'
              = Some st2"
    using run_reduce_functor_on_cuda_block [OF pos len1 blocks]
    by (simp add: st2_def comp_def st1'_def st1_def log_event_def)
  have bv2: "block_value st2' = map Some ?vs" by (simp add: st2'_def st2_def log_event_def)
  have lvs: "length ?vs = C" by simp
  have "run_reduce_operator_on_cuda F CudaParallelReduceFinalizeFunctor 1 (length ?vs) st2'
          = Inr (st2'\<lparr>serial_calls := serial_calls st2' @
                    [\<lparr>call_gridDim = 1, call_blockIdx = 0, call_threadIdx = 0,
                      call_value = reduce_shared_on_cuda (f_join F) ?vs ! 0\<rparr>]\<rparr>)"
    by (rule run_reduce_operator_on_cuda_serial [OF bv2]) (simp add: Cpos)
  then have k2: "run_reduce_operator_on_cuda F CudaParallelReduceFinalizeFunctor 1 C st2'
          = Inr (st2'\<lparr>serial_calls := serial_calls st2' @
                    [\<lparr>call_gridDim = 1, call_blockIdx = 0, call_threadIdx = 0,
                      call_value = reduce_shared_on_cuda (f_join F) ?vs ! 0\<rparr>]\<rparr>)"
    by (simp only: lvs)
  have "cuda_parallel_reduce dev reduce_size work_count F
          = Some (Inr (deallocate_memory (st2'\<lparr>serial_calls := serial_calls st2' @
                    [\<lparr>call_gridDim = 1, call_blockIdx = 0, call_threadIdx = 0,
                      call_value = reduce_shared_on_cuda (f_join F) ?vs ! 0\<rparr>]\<rparr>)))"
    using multi
    by (simp add: cuda_parallel_reduce_def Let_def C a k1 [unfolded st1'_def]
          k2 [unfolded st2'_def] st2'_def del: One_nat_def)
  then show ?thesis
    by (simp add: deallocate_memory_def st2'_def st2_def st1'_def st1_def log_event_def
          del: One_nat_def)
qed

text \<open>What a run that returns has gone through.\<close>

lemma returns_single:
  assumes "work_count < reduction_thread_max dev reduce_size"
    and "cuda_parallel_reduce dev reduce_size work_count F = Some r"
  shows "\<exists>T st'. shrink_thread_count work_count (reduction_thread_max dev reduce_size) = Some T
           \<and> run_reduce_functor_on_cuda F CudaParallelReduceFinalizeFunctor 1 T work_count
                (log_event (Launch_reduce_functor Finalize_functor 1 T (reduce_size * T))
                   initial_state) = Some st'"
  using assms
  by (auto simp: cuda_parallel_reduce_def Let_def bind_eq_Some_conv simp del: One_nat_def)

lemma returns_multi:
  assumes "\<not> work_count < reduction_thread_max dev reduce_size"
    and "cuda_parallel_reduce dev reduce_size work_count F = Some (Inr st)"
  shows "\<exists>C st1 st2. shrink_block_count work_count (reduction_thread_max dev reduce_size)
                (if reduction_thread_max dev reduce_size < block_count_max dev
                 then reduction_thread_max dev reduce_size else block_count_max dev) = Some C
           \<and> \<not> allocation_fails dev
           \<and> run_reduce_functor_on_cuda F CudaParallelReduceFinalizeBlock C
                (reduction_thread_max dev reduce_size) work_count st1 = Some st2"
proof -
  let ?m = "reduction_thread_max dev reduce_size"
  from assms obtain C where
    C: "shrink_block_count work_count ?m (if ?m < block_count_max dev then ?m
          else block_count_max dev) = Some C"
    and rest: "(case allocate_memory dev reduce_size C (initial_state :: 'a state) of
            Inl failure \<Rightarrow> Some (Inl failure)
          | Inr st1 \<Rightarrow>
              do {
                st2 \<leftarrow> run_reduce_functor_on_cuda F CudaParallelReduceFinalizeBlock
                        C ?m work_count
                        (log_event (Launch_reduce_functor Finalize_block C ?m
                                      (reduce_size * ?m)) st1);
                case run_reduce_operator_on_cuda F CudaParallelReduceFinalizeFunctor
                       1 C
                       (log_event (Launch_reduce_operator Finalize_functor
                                     1 C (reduce_size * C)) st2) of
                  Inl e \<Rightarrow> Some (Inl (e, st2))
                | Inr st3 \<Rightarrow> Some (Inr (deallocate_memory st3))
              }) = Some (Inr st)"
    by (auto simp: cuda_parallel_reduce_def Let_def bind_eq_Some_conv simp del: One_nat_def)
  have alloc: "\<not> allocation_fails dev"
  proof
    assume "allocation_fails dev"
    with rest show False by (simp add: allocate_memory_def)
  qed
  then obtain st1 :: "'a state" where
    st1: "allocate_memory dev reduce_size C initial_state = Inr st1"
    by (simp add: allocate_memory_def)
  from rest st1 obtain st2 where
    "run_reduce_functor_on_cuda F CudaParallelReduceFinalizeBlock C ?m work_count
       (log_event (Launch_reduce_functor Finalize_block C ?m (reduce_size * ?m)) st1) = Some st2"
    by (auto simp: bind_eq_Some_conv simp del: One_nat_def)
  with C alloc show ?thesis by blast
qed


lemma cuda_parallel_reduce_zero: "cuda_parallel_reduce dev reduce_size 0 F = None"
  by (simp add: cuda_parallel_reduce_def Let_def shrink_thread_count_zero
        shrink_block_count_zero)

lemma cuda_parallel_reduce_Some_pos:
  assumes "cuda_parallel_reduce dev reduce_size work_count F = Some r"
  shows "0 < work_count"
proof (rule ccontr)
  assume "\<not> 0 < work_count"
  then have "work_count = 0" by simp
  with assms show False by (simp only: cuda_parallel_reduce_zero) simp
qed

text \<open>
  C9. In the path of several blocks, reached with work to do, a failed allocation of the
  array of block results leaves \<^verbatim>\<open>cuda_parallel_reduce\<close> at once: the failure reaches the
  caller, no kernel has been launched and nothing is allocated.
\<close>

theorem allocation_failure_before_launch:
  assumes "reduction_thread_max dev reduce_size \<le> work_count"
    and "0 < work_count"
    and "allocation_fails dev"
  shows "\<exists>st. cuda_parallel_reduce dev reduce_size work_count F
                = Some (Inl (Allocation_failure, st))
              \<and> events st = [] \<and> block_value st = [] \<and> serial_calls st = []"
proof -
  obtain k where
    "shrink_block_count work_count (reduction_thread_max dev reduce_size)
       (if reduction_thread_max dev reduce_size < block_count_max dev
        then reduction_thread_max dev reduce_size else block_count_max dev)
     = Some ((if reduction_thread_max dev reduce_size < block_count_max dev
              then reduction_thread_max dev reduce_size else block_count_max dev) div 2 ^ k)"
    using shrink_block_count_halves [OF assms(2)] by blast
  moreover have "\<not> work_count < reduction_thread_max dev reduce_size" using assms(1) by simp
  ultimately have "cuda_parallel_reduce dev reduce_size work_count F
                     = Some (Inl (Allocation_failure, initial_state))"
    using assms(3) by (intro cuda_parallel_reduce_alloc_fails)
  then show ?thesis by (simp add: initial_state_def)
qed

text \<open>Thirteen indices on a device of 4 threads and 8 blocks whose allocation fails.\<close>

theorem allocation_failure_before_launch_witness:
  "\<exists>st. cuda_parallel_reduce (example_device 4 8 True) 4 13 count_functor
           = Some (Inl (Allocation_failure, st))
         \<and> events st = [] \<and> block_value st = [] \<and> serial_calls st = []"
  using allocation_failure_before_launch [of "example_device 4 8 True" 4 13 count_functor]
  by (simp add: example_device_def)

lemma min_if: "(if (m::nat) < b then m else b) = min b m"
  by (simp add: min_def)

lemma cuda_parallel_reduce_single_in_range:
  assumes "work_count < reduction_thread_max dev reduce_size"
    and "shrink_thread_count work_count (reduction_thread_max dev reduce_size) = Some T"
    and "0 < T"
    and "T < uint_range" and "work_count + T \<le> size_t_range"
  shows "cuda_parallel_reduce dev reduce_size work_count F
     = Some (Inr \<lparr>events = [Launch_reduce_functor Finalize_functor 1 T (reduce_size * T)],
                  block_value = [],
                  serial_calls =
                    [\<lparr>call_gridDim = 1, call_blockIdx = 0, call_threadIdx = 0,
                      call_value = block_slots F work_count 1 T 0 ! 0\<rparr>],
                  block_writes = []\<rparr>)"
proof -
  have "block_shared F work_count 1 T 0 = Some (block_slots F work_count 1 T 0)"
    by (rule block_shared_eq) (use assms(4,5) in simp_all)
  from cuda_parallel_reduce_single [OF assms(1,2,3) this] show ?thesis .
qed

lemma cuda_parallel_reduce_multi_in_range:
  assumes multi: "\<not> work_count < reduction_thread_max dev reduce_size"
    and pos: "0 < reduction_thread_max dev reduce_size"
    and C: "shrink_block_count work_count (reduction_thread_max dev reduce_size)
           (if reduction_thread_max dev reduce_size < block_count_max dev
            then reduction_thread_max dev reduce_size else block_count_max dev) = Some C"
    and Cpos: "0 < C"
    and alloc: "\<not> allocation_fails dev"
    and r1: "reduction_thread_max dev reduce_size * C < uint_range"
    and r2: "work_count + reduction_thread_max dev reduce_size * C \<le> size_t_range"
  shows "cuda_parallel_reduce dev reduce_size work_count F
     = Some (Inr \<lparr>events =
                    [Allocate_memory reduce_size C,
                     Launch_reduce_functor Finalize_block C (reduction_thread_max dev reduce_size)
                       (reduce_size * reduction_thread_max dev reduce_size),
                     Launch_reduce_operator Finalize_functor 1 C (reduce_size * C),
                     Deallocate_memory],
                  block_value = [],
                  serial_calls =
                    [\<lparr>call_gridDim = 1, call_blockIdx = 0, call_threadIdx = 0,
                      call_value =
                        reduce_shared_on_cuda (f_join F)
                          (map (\<lambda>b. block_slots F work_count C
                                       (reduction_thread_max dev reduce_size) b ! 0)
                             [0..<C]) ! 0\<rparr>],
                  block_writes =
                    map (\<lambda>b. (b, block_slots F work_count C
                                    (reduction_thread_max dev reduce_size) b ! 0)) [0..<C]\<rparr>)"
proof -
  have "\<forall>b<C. block_shared F work_count C (reduction_thread_max dev reduce_size) b
                 = Some (block_slots F work_count C (reduction_thread_max dev reduce_size) b)"
    by (intro allI impI block_shared_eq r1 r2)
  from cuda_parallel_reduce_multi [OF multi pos C Cpos alloc this] show ?thesis .
qed

text \<open>
  Runs of the functor that counts the indices. Thirteen indices on a device of 4 threads
  and 8 blocks take the path of several blocks, with 4 blocks of 4 threads.
\<close>

lemma count_13_on_4_8:
  "cuda_parallel_reduce (example_device 4 8 False) 4 13 count_functor
     = Some (Inr \<lparr>events = [Allocate_memory 4 4, Launch_reduce_functor Finalize_block 4 4 16,
                            Launch_reduce_operator Finalize_functor 1 4 16, Deallocate_memory],
                  block_value = [],
                  serial_calls = [\<lparr>call_gridDim = 1, call_blockIdx = 0, call_threadIdx = 0,
                                   call_value = 13\<rparr>],
                  block_writes = [(0, 4), (1, 4), (2, 4), (3, 1)]\<rparr>)"
proof -
  have sh: "shrink_block_count 13 4 (if (4::nat) < 8 then 4 else 8) = Some 4" by code_simp
  have r: "(4::nat) * 4 < uint_range" "(13::nat) + 4 * 4 \<le> size_t_range"
    by (simp_all add: uint_range_def size_t_range_def)
  have v: "reduce_shared_on_cuda (f_join count_functor)
             (map (\<lambda>b. block_slots count_functor 13 4 4 b ! 0) [0..<4]) ! 0 = 13"
    by code_simp
  have w: "map (\<lambda>b. (b, block_slots count_functor 13 4 4 b ! 0)) [0..<4]
             = [(0, 4), (1, 4), (2, 4), (3, 1)]"
    by code_simp
  show ?thesis
    using cuda_parallel_reduce_multi_in_range
            [of 13 "example_device 4 8 False" 4 4 count_functor] sh r
    by (simp add: example_device_def v w)
qed

section \<open>Runs that return\<close>

lemma serial_calls_FinalizeBlock:
  "serial_calls (CudaParallelReduceFinalizeBlock g b l sh s) = serial_calls s"
  by (simp add: CudaParallelReduceFinalizeBlock_def)

lemma finalize_functor_thread_guard:
  "g \<noteq> 1 \<or> t \<noteq> 0 \<Longrightarrow> finalize_functor_thread g b sh t s = s"
  by (auto simp: finalize_functor_thread_def)

lemma complete_single:
  assumes "work_count < reduction_thread_max dev reduce_size"
    and "cuda_parallel_reduce dev reduce_size work_count F = Some (Inr st)"
  shows "\<exists>T. shrink_thread_count work_count (reduction_thread_max dev reduce_size) = Some T
           \<and> 0 < T
           \<and> block_shared F work_count 1 T 0 = Some (block_shared_list F work_count 1 T 0)
           \<and> st = \<lparr>events = [Launch_reduce_functor Finalize_functor 1 T (reduce_size * T)],
                  block_value = [],
                  serial_calls =
                    [\<lparr>call_gridDim = 1, call_blockIdx = 0, call_threadIdx = 0,
                      call_value = block_shared_list F work_count 1 T 0 ! 0\<rparr>],
                  block_writes = []\<rparr>"
proof -
  let ?m = "reduction_thread_max dev reduce_size"
  have wpos: "0 < work_count" by (rule cuda_parallel_reduce_Some_pos [OF assms(2)])
  have mpos: "0 < ?m" using assms(1) by simp
  from returns_single [OF assms] obtain T st' where
    T: "shrink_thread_count work_count ?m = Some T"
    and run: "run_reduce_functor_on_cuda F CudaParallelReduceFinalizeFunctor 1 T work_count
                (log_event (Launch_reduce_functor Finalize_functor 1 T (reduce_size * T))
                   initial_state) = Some st'"
    by (elim exE conjE)
  from shrink_thread_count_halves [OF wpos, of ?m] obtain k where
    k: "shrink_thread_count work_count ?m = Some (?m div 2 ^ k)" "0 < ?m \<longrightarrow> 0 < ?m div 2 ^ k"
    by (elim exE conjE)
  have Tpos: "0 < T" using k mpos T by simp
  have one: "(0::nat) < 1" by simp
  have sh: "block_shared F work_count 1 T 0 = Some (block_shared_list F work_count 1 T 0)"
    by (rule run_reduce_functor_on_cuda_Some [OF run, rule_format, OF one])
  from cuda_parallel_reduce_single [OF assms(1) T Tpos sh] assms(2)
  have "st = \<lparr>events = [Launch_reduce_functor Finalize_functor 1 T (reduce_size * T)],
                  block_value = [],
                  serial_calls =
                    [\<lparr>call_gridDim = 1, call_blockIdx = 0, call_threadIdx = 0,
                      call_value = block_shared_list F work_count 1 T 0 ! 0\<rparr>],
                  block_writes = []\<rparr>"
    by simp
  with T Tpos sh show ?thesis by blast
qed

lemma complete_multi:
  assumes "reduction_thread_max dev reduce_size \<le> work_count"
    and "0 < reduction_thread_max dev reduce_size" and "0 < block_count_max dev"
    and "cuda_parallel_reduce dev reduce_size work_count F = Some (Inr st)"
  shows "\<exists>C. shrink_block_count work_count (reduction_thread_max dev reduce_size)
                (min (block_count_max dev) (reduction_thread_max dev reduce_size)) = Some C
           \<and> 0 < C
           \<and> (\<forall>b<C. block_shared F work_count C (reduction_thread_max dev reduce_size) b
                       = Some (block_shared_list F work_count C
                                 (reduction_thread_max dev reduce_size) b))
           \<and> st = \<lparr>events =
                    [Allocate_memory reduce_size C,
                     Launch_reduce_functor Finalize_block C (reduction_thread_max dev reduce_size)
                       (reduce_size * reduction_thread_max dev reduce_size),
                     Launch_reduce_operator Finalize_functor 1 C (reduce_size * C),
                     Deallocate_memory],
                  block_value = [],
                  serial_calls =
                    [\<lparr>call_gridDim = 1, call_blockIdx = 0, call_threadIdx = 0,
                      call_value =
                        reduce_shared_on_cuda (f_join F)
                          (map (\<lambda>b. block_shared_list F work_count C
                                       (reduction_thread_max dev reduce_size) b ! 0)
                             [0..<C]) ! 0\<rparr>],
                  block_writes =
                    map (\<lambda>b. (b, block_shared_list F work_count C
                                    (reduction_thread_max dev reduce_size) b ! 0)) [0..<C]\<rparr>"
proof -
  let ?m = "reduction_thread_max dev reduce_size"
  let ?c0 = "min (block_count_max dev) ?m"
  have wpos: "0 < work_count" by (rule cuda_parallel_reduce_Some_pos [OF assms(4)])
  have c0pos: "0 < ?c0" using assms(2,3) by simp
  have multi: "\<not> work_count < ?m" using assms(1) by simp
  from returns_multi [OF multi assms(4)] obtain C st1 st2 where
    C: "shrink_block_count work_count ?m (if ?m < block_count_max dev then ?m
          else block_count_max dev) = Some C"
    and alloc: "\<not> allocation_fails dev"
    and run: "run_reduce_functor_on_cuda F CudaParallelReduceFinalizeBlock C ?m work_count st1
                = Some st2"
    by (elim exE conjE)
  from shrink_block_count_halves [OF wpos, of ?m ?c0] obtain k where
    k: "shrink_block_count work_count ?m ?c0 = Some (?c0 div 2 ^ k)"
       "0 < ?c0 \<longrightarrow> ?m \<le> work_count \<longrightarrow> 0 < ?c0 div 2 ^ k"
    by (elim exE conjE)
  have C': "shrink_block_count work_count ?m ?c0 = Some C" using C by (simp only: min_if)
  have Cpos: "0 < C" using k c0pos assms(1) C' by simp
  note blocks = run_reduce_functor_on_cuda_Some [OF run]
  from cuda_parallel_reduce_multi [OF multi assms(2) C Cpos alloc blocks] assms(4)
  have "st = \<lparr>events =
                    [Allocate_memory reduce_size C,
                     Launch_reduce_functor Finalize_block C ?m (reduce_size * ?m),
                     Launch_reduce_operator Finalize_functor 1 C (reduce_size * C),
                     Deallocate_memory],
                  block_value = [],
                  serial_calls =
                    [\<lparr>call_gridDim = 1, call_blockIdx = 0, call_threadIdx = 0,
                      call_value =
                        reduce_shared_on_cuda (f_join F)
                          (map (\<lambda>b. block_shared_list F work_count C ?m b ! 0) [0..<C]) ! 0\<rparr>],
                  block_writes =
                    map (\<lambda>b. (b, block_shared_list F work_count C ?m b ! 0)) [0..<C]\<rparr>"
    by simp
  with C' Cpos blocks show ?thesis by blast
qed

lemma complete_alloc:
  assumes "reduction_thread_max dev reduce_size \<le> work_count"
    and "cuda_parallel_reduce dev reduce_size work_count F = Some (Inr st)"
  shows "\<not> allocation_fails dev"
proof -
  have "\<not> work_count < reduction_thread_max dev reduce_size" using assms(1) by simp
  from returns_multi [OF this assms(2)] show ?thesis by (elim exE conjE)
qed

lemma complete_calls:
  assumes "0 < reduction_thread_max dev reduce_size" and "0 < block_count_max dev"
    and "cuda_parallel_reduce dev reduce_size work_count F = Some (Inr st)"
  shows "\<exists>v. serial_calls st =
               [\<lparr>call_gridDim = 1, call_blockIdx = 0, call_threadIdx = 0, call_value = v\<rparr>]"
proof (cases "work_count < reduction_thread_max dev reduce_size")
  case True
  from complete_single [OF True assms(3)] show ?thesis by (elim exE conjE) simp
next
  case False
  then have "reduction_thread_max dev reduce_size \<le> work_count" by simp
  from complete_multi [OF this assms] show ?thesis by (elim exE conjE) simp
qed

lemma view_after_single: "view_after [c] = Some (call_value c)"
  by (simp add: view_after_def)

text \<open>
  C10. On a device with at least one thread and one block the two entry points agree:
  one never returns exactly when the other never does, an error leaves both, and when
  the form with a finalize functor returns, that functor has been called with one
  value, which is the value that the other form returns.
\<close>

theorem run_value_returns_finalize_argument:
  assumes "0 < reduction_thread_max dev reduce_size" and "0 < block_count_max dev"
  shows "(run_finalize dev reduce_size work_count F = None
            \<longleftrightarrow> run_value dev reduce_size work_count F = None)
       \<and> (\<forall>e st. run_finalize dev reduce_size work_count F = Some (Inl (e, st))
                 \<longrightarrow> run_value dev reduce_size work_count F = Some (Inl e))
       \<and> (\<forall>st. run_finalize dev reduce_size work_count F = Some (Inr st)
                 \<longrightarrow> (\<exists>v. map call_value (serial_calls st) = [v]
                        \<and> run_value dev reduce_size work_count F = Some (Inr (Some v))))"
proof (intro conjI allI impI)
  show "run_finalize dev reduce_size work_count F = None
            \<longleftrightarrow> run_value dev reduce_size work_count F = None"
    by (simp add: run_finalize_def run_value_def split: option.splits sum.splits prod.splits)
next
  fix e st
  assume "run_finalize dev reduce_size work_count F = Some (Inl (e, st))"
  then show "run_value dev reduce_size work_count F = Some (Inl e)"
    by (simp add: run_finalize_def run_value_def)
next
  fix st
  assume "run_finalize dev reduce_size work_count F = Some (Inr st)"
  then have run: "cuda_parallel_reduce dev reduce_size work_count F = Some (Inr st)"
    by (simp add: run_finalize_def)
  from complete_calls [OF assms run] obtain v where
    v: "serial_calls st =
          [\<lparr>call_gridDim = 1, call_blockIdx = 0, call_threadIdx = 0, call_value = v\<rparr>]" ..
  have "run_value dev reduce_size work_count F = Some (Inr (Some v))"
    by (simp add: run_value_def run v view_after_single)
  with v show "\<exists>v. map call_value (serial_calls st) = [v]
                 \<and> run_value dev reduce_size work_count F = Some (Inr (Some v))"
    by simp
qed

text \<open>Thirteen indices on a device of 4 threads and 8 blocks: both forms give 13.\<close>

theorem run_value_returns_finalize_argument_witness:
  "\<exists>st. run_finalize (example_device 4 8 False) 4 13 count_functor = Some (Inr st)
        \<and> map call_value (serial_calls st) = [13]
        \<and> run_value (example_device 4 8 False) 4 13 count_functor = Some (Inr (Some 13))"
proof -
  let ?dev = "example_device 4 8 False"
  have h1: "0 < reduction_thread_max ?dev 4" by (simp add: example_device_def)
  have h2: "0 < block_count_max ?dev" by (simp add: example_device_def)
  have run: "run_finalize ?dev 4 13 count_functor
     = Some (Inr \<lparr>events = [Allocate_memory 4 4, Launch_reduce_functor Finalize_block 4 4 16,
           Launch_reduce_operator Finalize_functor 1 4 16, Deallocate_memory],
          block_value = [],
          serial_calls = [\<lparr>call_gridDim = 1, call_blockIdx = 0, call_threadIdx = 0,
                           call_value = 13\<rparr>],
          block_writes = [(0, 4), (1, 4), (2, 4), (3, 1)]\<rparr>)"
    by (simp only: run_finalize_def count_13_on_4_8)
  note c = run_value_returns_finalize_argument [OF h1 h2, of 13 count_functor,
      THEN conjunct2, THEN conjunct2, rule_format, OF run]
  from c have "run_value ?dev 4 13 count_functor = Some (Inr (Some 13))" by simp
  with run show ?thesis by simp
qed

section \<open>The path of several blocks\<close>

lemma launch_in_range_single:
  assumes "work_count < reduction_thread_max dev reduce_size"
    and "shrink_thread_count work_count (reduction_thread_max dev reduce_size) = Some T"
    and "launch_in_range dev reduce_size work_count"
  shows "T < uint_range" and "work_count + T \<le> size_t_range"
  using assms by (simp_all add: launch_in_range_def launch_thread_total_def)

lemma launch_in_range_multi:
  assumes "\<not> work_count < reduction_thread_max dev reduce_size"
    and "shrink_block_count work_count (reduction_thread_max dev reduce_size)
           (if reduction_thread_max dev reduce_size < block_count_max dev
            then reduction_thread_max dev reduce_size else block_count_max dev) = Some C"
    and "launch_in_range dev reduce_size work_count"
  shows "reduction_thread_max dev reduce_size * C < uint_range"
    and "work_count + reduction_thread_max dev reduce_size * C \<le> size_t_range"
  using assms by (simp_all add: launch_in_range_def launch_thread_total_def)

lemma launch_in_range_multi_conv:
  assumes "\<not> work_count < reduction_thread_max dev reduce_size"
    and "shrink_block_count work_count (reduction_thread_max dev reduce_size)
           (if reduction_thread_max dev reduce_size < block_count_max dev
            then reduction_thread_max dev reduce_size else block_count_max dev) = Some C"
  shows "launch_in_range dev reduce_size work_count
           \<longleftrightarrow> reduction_thread_max dev reduce_size * C < uint_range
               \<and> work_count + reduction_thread_max dev reduce_size * C \<le> size_t_range"
  using assms by (simp add: launch_in_range_def launch_thread_total_def)







section \<open>The value delivered to the serial finalize functor\<close>

lemma foldl_join_unit:
  assumes assoc: "\<And>a b c. join (join a b) c = join a (join b c)"
    and comm: "\<And>a b. join a b = join b a"
    and unit: "\<And>a. join e a = a"
  shows "foldl join a xs = join a (foldl join e xs)"
proof -
  have "join a e = a" using comm [of a e] unit [of a] by simp
  then have "foldl join a xs = foldl join (join a e) xs" by simp
  also have "\<dots> = join a (foldl join e xs)" by (rule foldl_join_assoc [OF assoc])
  finally show ?thesis .
qed

lemma join_all_foldl:
  assumes unit: "\<And>a. join e a = a" and "xs \<noteq> []"
  shows "join_all join xs = foldl join e xs"
proof -
  obtain x xs' where "xs = x # xs'" using assms(2) by (cases xs) auto
  then show ?thesis by (simp add: join_all_def unit)
qed

lemma foldl_join_concat:
  assumes assoc: "\<And>a b c. join (join a b) c = join a (join b c)"
    and comm: "\<And>a b. join a b = join b a"
    and unit: "\<And>a. join e a = a"
  shows "foldl join e (concat xss) = foldl join e (map (foldl join e) xss)"
proof (induction xss)
  case Nil
  show ?case by simp
next
  case (Cons xs xss)
  have "foldl join e (concat (xs # xss)) = foldl join (foldl join e xs) (concat xss)"
    by simp
  also have "\<dots> = join (foldl join e xs) (foldl join e (concat xss))"
    by (rule foldl_join_unit [OF assoc comm unit])
  also have "\<dots> = join (foldl join e xs) (foldl join e (map (foldl join e) xss))"
    by (simp only: Cons.IH)
  also have "\<dots> = foldl join (foldl join e xs) (map (foldl join e) xss)"
    by (rule foldl_join_unit [OF assoc comm unit, symmetric])
  also have "\<dots> = foldl join e (map (foldl join e) (xs # xss))"
    by (simp add: unit)
  finally show ?case .
qed

lemma foldl_join_mset:
  assumes assoc: "\<And>a b c. join (join a b) c = join a (join b c)"
    and comm: "\<And>a b. join a b = join b a"
    and "mset xs = mset ys"
  shows "foldl join e xs = foldl join e ys"
proof -
  have sw: "(\<lambda>s. join s x) \<circ> (\<lambda>s. join s y) = (\<lambda>s. join s y) \<circ> (\<lambda>s. join s x)" for x y
  proof (rule ext)
    fix s
    have "join (join s y) x = join s (join y x)" by (rule assoc)
    also have "join y x = join x y" by (rule comm)
    also have "join s (join x y) = join (join s x) y" by (rule assoc [symmetric])
    finally show "((\<lambda>s. join s x) \<circ> (\<lambda>s. join s y)) s = ((\<lambda>s. join s y) \<circ> (\<lambda>s. join s x)) s"
      by simp
  qed
  have "fold (\<lambda>x s. join s x) xs = fold (\<lambda>x s. join s x) ys"
    by (rule fold_multiset_equiv [OF sw assms(3)])
  then show ?thesis by (simp add: foldl_conv_fold)
qed

lemma fold_apply_foldl:
  assumes "\<And>i v. app i v = join v (app i e)"
  shows "fold app xs v = foldl join v (map (\<lambda>i. app i e) xs)"
proof (induction xs arbitrary: v)
  case Nil
  show ?case by simp
next
  case (Cons x xs)
  have "fold app (x # xs) v = fold app xs (app x v)" by simp
  also have "\<dots> = foldl join (app x v) (map (\<lambda>i. app i e) xs)" by (rule Cons.IH)
  also have "app x v = join v (app x e)" by (rule assms)
  finally show ?case by simp
qed

lemma block_slots_total:
  assumes assoc: "\<And>a b c. f_join F (f_join F a b) c = f_join F a (f_join F b c)"
    and comm: "\<And>a b. f_join F a b = f_join F b a"
    and unit: "\<And>a. f_join F (f_init F) a = a"
    and app: "\<And>i v. f_apply F i v = f_join F v (f_apply F i (f_init F))"
    and L: "blockDim = 2 ^ p"
  shows "block_slots F n gridDim blockDim b ! 0
           = foldl (f_join F) (f_init F)
               (map (\<lambda>i. f_apply F i (f_init F))
                  (concat (map (\<lambda>t. strided (t + blockDim * b) (blockDim * gridDim) n)
                             [0..<blockDim])))"
proof -
  let ?S = "\<lambda>t. strided (t + blockDim * b) (blockDim * gridDim) n"
  let ?c = "\<lambda>i. f_apply F i (f_init F)"
  let ?J = "foldl (f_join F) (f_init F)"
  let ?vs = "map (\<lambda>t. fold (f_apply F) (?S t) (f_init F)) [0..<blockDim]"
  have len: "length ?vs = 2 ^ p" by (simp add: L)
  have ne: "?vs \<noteq> []" using len by (cases ?vs) auto
  have vs: "?vs = map ?J (map (\<lambda>t. map ?c (?S t)) [0..<blockDim])"
    by (simp add: fold_apply_foldl [of "f_apply F" "f_join F" "f_init F", OF app] comp_def)
  have "block_slots F n gridDim blockDim b ! 0 = join_all (f_join F) ?vs"
    unfolding block_slots_def by (rule reduce_shared_join_all [of "f_join F", OF assoc comm len])
  also have "\<dots> = ?J ?vs" by (rule join_all_foldl [of "f_join F" "f_init F", OF unit ne])
  also have "\<dots> = ?J (map ?J (map (\<lambda>t. map ?c (?S t)) [0..<blockDim]))"
    by (simp only: vs)
  also have "\<dots> = ?J (concat (map (\<lambda>t. map ?c (?S t)) [0..<blockDim]))"
    by (rule foldl_join_concat [of "f_join F" "f_init F", OF assoc comm unit, symmetric])
  also have "concat (map (\<lambda>t. map ?c (?S t)) [0..<blockDim])
               = map ?c (concat (map ?S [0..<blockDim]))"
    by (simp add: map_concat comp_def)
  finally show ?thesis .
qed

lemma concat_map_concat: "concat (map (\<lambda>b. concat (f b)) bs) = concat (concat (map f bs))"
  by (induction bs) simp_all

lemma launch_total:
  assumes assoc: "\<And>a b c. f_join F (f_join F a b) c = f_join F a (f_join F b c)"
    and comm: "\<And>a b. f_join F a b = f_join F b a"
    and unit: "\<And>a. f_join F (f_init F) a = a"
    and app: "\<And>i v. f_apply F i v = f_join F v (f_apply F i (f_init F))"
    and L: "blockDim = 2 ^ p" and G: "0 < gridDim"
  shows "foldl (f_join F) (f_init F)
           (map (\<lambda>b. block_slots F n gridDim blockDim b ! 0) [0..<gridDim])
         = fold (f_apply F) [0..<n] (f_init F)"
proof -
  let ?P = "blockDim * gridDim"
  let ?S = "\<lambda>g. strided g ?P n"
  let ?c = "\<lambda>i. f_apply F i (f_init F)"
  let ?J = "foldl (f_join F) (f_init F)"
  have P: "0 < ?P" using L G by simp
  have "map (\<lambda>b. block_slots F n gridDim blockDim b ! 0) [0..<gridDim]
          = map ?J (map (\<lambda>b. map ?c (concat (map (\<lambda>t. ?S (t + blockDim * b)) [0..<blockDim])))
                      [0..<gridDim])"
    by (simp add: block_slots_total [OF assoc comm unit app L] comp_def)
  then have "?J (map (\<lambda>b. block_slots F n gridDim blockDim b ! 0) [0..<gridDim])
          = ?J (map ?J (map (\<lambda>b. map ?c (concat (map (\<lambda>t. ?S (t + blockDim * b)) [0..<blockDim])))
                      [0..<gridDim]))"
    by (rule arg_cong)
  also have "\<dots> = ?J (concat (map (\<lambda>b. map ?c (concat (map (\<lambda>t. ?S (t + blockDim * b))
                                                        [0..<blockDim]))) [0..<gridDim]))"
    by (rule foldl_join_concat [of "f_join F" "f_init F", OF assoc comm unit, symmetric])
  also have "concat (map (\<lambda>b. map ?c (concat (map (\<lambda>t. ?S (t + blockDim * b)) [0..<blockDim])))
                       [0..<gridDim])
             = map ?c (concat (concat (map (\<lambda>b. map (\<lambda>t. ?S (t + blockDim * b)) [0..<blockDim])
                                         [0..<gridDim])))"
    by (simp add: map_concat comp_def concat_map_concat)
  also have "concat (map (\<lambda>b. map (\<lambda>t. ?S (t + blockDim * b)) [0..<blockDim]) [0..<gridDim])
               = map ?S [0..<?P]"
    by (rule concat_blocks_threads)
  also have "?J (map ?c (concat (map ?S [0..<?P]))) = ?J (map ?c [0..<n])"
    by (rule foldl_join_mset [of "f_join F", OF assoc comm]) (simp only: mset_map mset_concat_strided [OF P])
  also have "\<dots> = fold (f_apply F) [0..<n] (f_init F)"
    by (rule fold_apply_foldl [of "f_apply F" "f_join F" "f_init F", OF app, symmetric])
  finally show ?thesis .
qed

lemma pow2_div_pow2:
  assumes "0 < (2::nat) ^ a div 2 ^ k"
  shows "\<exists>j. (2::nat) ^ a div 2 ^ k = 2 ^ j"
proof (cases "k \<le> a")
  case True
  then have "(2::nat) ^ (a - k) = 2 ^ a div 2 ^ k" by (simp add: power_diff)
  then show ?thesis by metis
next
  case False
  then have "(2::nat) ^ a < 2 ^ k" by simp
  then have "(2::nat) ^ a div 2 ^ k = 0" by simp
  with assms show ?thesis by simp
qed

lemma min_pow2: "min ((2::nat) ^ q) (2 ^ p) = 2 ^ min q p"
  by (cases "q \<le> p") (simp_all add: min_def)

lemma delivered_total:
  assumes assoc: "\<And>a b c. f_join F (f_join F a b) c = f_join F a (f_join F b c)"
    and comm: "\<And>a b. f_join F a b = f_join F b a"
    and unit: "\<And>a. f_join F (f_init F) a = a"
    and app: "\<And>i v. f_apply F i v = f_join F v (f_apply F i (f_init F))"
    and wpos: "0 < work_count"
    and mt: "reduction_thread_max dev reduce_size = 2 ^ p"
    and mb: "reduction_thread_max dev reduce_size \<le> work_count
               \<longrightarrow> min (block_count_max dev) (reduction_thread_max dev reduce_size) = 2 ^ q"
    and alloc: "reduction_thread_max dev reduce_size \<le> work_count \<longrightarrow> \<not> allocation_fails dev"
    and range: "launch_in_range dev reduce_size work_count"
  shows "\<exists>st. cuda_parallel_reduce dev reduce_size work_count F = Some (Inr st)
            \<and> map call_value (serial_calls st) = [fold (f_apply F) [0..<work_count] (f_init F)]"
proof (cases "work_count < reduction_thread_max dev reduce_size")
  case True
  let ?m = "reduction_thread_max dev reduce_size"
  have mpos: "0 < ?m" by (simp add: mt)
  from shrink_thread_count_halves [OF wpos, of ?m] obtain k where
    k: "shrink_thread_count work_count ?m = Some (?m div 2 ^ k)" "0 < ?m \<longrightarrow> 0 < ?m div 2 ^ k"
    by (elim exE conjE)
  define T where "T = ?m div 2 ^ k"
  have T: "shrink_thread_count work_count ?m = Some T" "0 < T"
    using k mpos by (simp_all add: T_def)
  obtain j where j: "T = 2 ^ j" using pow2_div_pow2 [of p k] T(2) by (auto simp: T_def mt)
  have one: "0 < (1::nat)" by simp
  have "foldl (f_join F) (f_init F) (map (\<lambda>b. block_slots F work_count 1 T b ! 0) [0..<1])
          = fold (f_apply F) [0..<work_count] (f_init F)"
    by (rule launch_total [OF assoc comm unit app j one])
  then have v: "block_slots F work_count 1 T 0 ! 0 = fold (f_apply F) [0..<work_count] (f_init F)"
    by (simp add: unit)
  note r = launch_in_range_single [OF True T(1) range]
  show ?thesis
    by (simp add: cuda_parallel_reduce_single_in_range [OF True T r, of F] v del: One_nat_def)
next
  case False
  let ?m = "reduction_thread_max dev reduce_size"
  let ?c0 = "min (block_count_max dev) ?m"
  have mpos: "0 < ?m" by (simp add: mt)
  have le: "?m \<le> work_count" using False by simp
  have c0: "?c0 = 2 ^ q" by (rule mb [rule_format, OF le])
  then have c0pos: "0 < ?c0" by simp
  from shrink_block_count_halves [OF wpos, of ?m ?c0] obtain k where
    k: "shrink_block_count work_count ?m ?c0 = Some (?c0 div 2 ^ k)"
       "0 < ?c0 \<longrightarrow> ?m \<le> work_count \<longrightarrow> 0 < ?c0 div 2 ^ k"
    by (elim exE conjE)
  define C where "C = ?c0 div 2 ^ k"
  have Cpos: "0 < C" using k(2) c0pos le by (simp add: C_def)
  obtain j where j: "C = 2 ^ j" using pow2_div_pow2 [of q k] Cpos by (auto simp: C_def c0)
  have sh: "shrink_block_count work_count ?m (if ?m < block_count_max dev then ?m
              else block_count_max dev) = Some C"
    using k(1) by (simp only: min_if C_def)
  let ?partial = "map (\<lambda>b. block_slots F work_count C ?m b ! 0) [0..<C]"
  have len: "length ?partial = 2 ^ j" by (simp add: j)
  have ne: "?partial \<noteq> []" using Cpos by simp
  have "reduce_shared_on_cuda (f_join F) ?partial ! 0 = join_all (f_join F) ?partial"
    by (rule reduce_shared_join_all [of "f_join F", OF assoc comm len])
  also have "\<dots> = foldl (f_join F) (f_init F) ?partial"
    by (rule join_all_foldl [of "f_join F" "f_init F", OF unit ne])
  also have "\<dots> = fold (f_apply F) [0..<work_count] (f_init F)"
    by (rule launch_total [OF assoc comm unit app mt Cpos])
  finally have v: "reduce_shared_on_cuda (f_join F) ?partial ! 0
                     = fold (f_apply F) [0..<work_count] (f_init F)" .
  note r = launch_in_range_multi [OF False sh range]
  show ?thesis
    by (simp add: cuda_parallel_reduce_multi_in_range
                    [OF False mpos sh Cpos alloc [rule_format, OF le] r, of F] v
          del: One_nat_def)
qed

text \<open>
  Runs of the functor that counts the indices: three indices on devices of 3 and of 4
  threads, five indices on a device of 6 threads, thirteen on a device of 16 threads.
\<close>

lemma count_3_on_3_1:
  "cuda_parallel_reduce (example_device 3 1 False) 4 3 count_functor
     = Some (Inr \<lparr>events = [Allocate_memory 4 1, Launch_reduce_functor Finalize_block 1 3 12,
                            Launch_reduce_operator Finalize_functor 1 1 4, Deallocate_memory],
                  block_value = [],
                  serial_calls = [\<lparr>call_gridDim = 1, call_blockIdx = 0, call_threadIdx = 0,
                                   call_value = 2\<rparr>],
                  block_writes = [(0, 2)]\<rparr>)"
proof -
  have sh: "shrink_block_count 3 3 (if (3::nat) < 1 then 3 else 1) = Some 1" by code_simp
  have r: "(3::nat) * 1 < uint_range" "(3::nat) + 3 * 1 \<le> size_t_range"
    by (simp_all add: uint_range_def size_t_range_def)
  have v: "reduce_shared_on_cuda (f_join count_functor)
             (map (\<lambda>b. block_slots count_functor 3 1 3 b ! 0) [0..<1]) ! 0 = 2"
    by code_simp
  have w: "map (\<lambda>b. (b, block_slots count_functor 3 1 3 b ! 0)) [0..<1] = [(0, 2)]"
    by code_simp
  show ?thesis
    using cuda_parallel_reduce_multi_in_range
            [of 3 "example_device 3 1 False" 4 1 count_functor] sh r
    by (simp add: example_device_def v w del: One_nat_def)
qed

lemma count_3_on_4_1:
  "cuda_parallel_reduce (example_device 4 1 False) 4 3 count_functor
     = Some (Inr \<lparr>events = [Launch_reduce_functor Finalize_functor 1 4 16],
                  block_value = [],
                  serial_calls = [\<lparr>call_gridDim = 1, call_blockIdx = 0, call_threadIdx = 0,
                                   call_value = 3\<rparr>],
                  block_writes = []\<rparr>)"
proof -
  have sh: "shrink_thread_count 3 4 = Some 4" by code_simp
  have r: "(4::nat) < uint_range" "(3::nat) + 4 \<le> size_t_range"
    by (simp_all add: uint_range_def size_t_range_def)
  have v: "block_slots count_functor 3 1 4 0 ! 0 = 3" by code_simp
  show ?thesis
    using cuda_parallel_reduce_single_in_range
            [of 3 "example_device 4 1 False" 4 4 count_functor] sh r
    by (simp add: example_device_def v del: One_nat_def)
qed

lemma count_5_on_6_1:
  "cuda_parallel_reduce (example_device 6 1 False) 4 5 count_functor
     = Some (Inr \<lparr>events = [Launch_reduce_functor Finalize_functor 1 6 24],
                  block_value = [],
                  serial_calls = [\<lparr>call_gridDim = 1, call_blockIdx = 0, call_threadIdx = 0,
                                   call_value = 4\<rparr>],
                  block_writes = []\<rparr>)"
proof -
  have sh: "shrink_thread_count 5 6 = Some 6" by code_simp
  have r: "(6::nat) < uint_range" "(5::nat) + 6 \<le> size_t_range"
    by (simp_all add: uint_range_def size_t_range_def)
  have v: "block_slots count_functor 5 1 6 0 ! 0 = 4" by code_simp
  show ?thesis
    using cuda_parallel_reduce_single_in_range
            [of 5 "example_device 6 1 False" 4 6 count_functor] sh r
    by (simp add: example_device_def v del: One_nat_def)
qed

lemma count_5_on_6_1_threads:
  "block_thread_values count_functor 5 1 6 0 = Some [1, 1, 1, 1, 1, 0]"
proof -
  have r: "(6::nat) * 1 < uint_range" "(5::nat) + 6 * 1 \<le> size_t_range"
    by (simp_all add: uint_range_def size_t_range_def)
  have z: "(0::nat) < 1" by simp
  have v0: "map (\<lambda>t. fold (f_apply count_functor) (strided (t + 6 * 0) (6 * 1) 5)
                   (f_init count_functor)) [0..<6] = [1, 1, 1, 1, 1, 0]"
    by code_simp
  show ?thesis by (simp only: block_thread_values_eq [OF z r] v0)
qed

lemma count_functor_laws:
  "\<forall>a b c. f_join count_functor (f_join count_functor a b) c
              = f_join count_functor a (f_join count_functor b c)"
  "\<forall>a b. f_join count_functor a b = f_join count_functor b a"
  "\<forall>a. f_join count_functor (f_init count_functor) a = a"
  "\<forall>i v. f_apply count_functor i v
              = f_join count_functor v (f_apply count_functor i (f_init count_functor))"
  by (simp_all add: count_functor_def)

lemma launch_in_range_13_on_4_8: "launch_in_range (example_device 4 8 False) 4 13"
proof -
  have "launch_thread_total (example_device 4 8 False) 4 13 = Some 16" by code_simp
  then show ?thesis by (simp add: launch_in_range_def uint_range_def size_t_range_def)
qed

lemma launch_in_range_13_on_16_2: "launch_in_range (example_device 16 2 False) 4 13"
proof -
  have "launch_thread_total (example_device 16 2 False) 4 13 = Some 16" by code_simp
  then show ?thesis by (simp add: launch_in_range_def uint_range_def size_t_range_def)
qed

text \<open>
  C3, as stated for all device limits of at least 1, fails: three indices counted on a
  device of 3 threads and 1 block take the path of several blocks with one block of 3
  threads, whose tree reduction drops slot 2, and deliver 2; on a device of 4 threads
  and 1 block they take the path of one block and deliver 3.
\<close>

theorem delivered_aggregate_depends_on_limits:
  "(\<exists>st. cuda_parallel_reduce (example_device 3 1 False) 4 3 count_functor = Some (Inr st)
         \<and> map call_value (serial_calls st) = [2])
   \<and> (\<exists>st. cuda_parallel_reduce (example_device 4 1 False) 4 3 count_functor = Some (Inr st)
         \<and> map call_value (serial_calls st) = [3])"
  by (simp add: count_3_on_3_1 count_3_on_4_1 del: One_nat_def)

text \<open>
  C3, amended. Let the join be associative and commutative, the initial value a unit of
  the join, and the functor join the contribution of its index onto the value. Let there
  be work to do, the thread limit be a power of two and the first launch be in range;
  and where the path of several blocks is taken (\<^verbatim>\<open>max_thread_count <= work_count\<close>), let
  the minimum of the block limit and the thread limit, to which the code clamps the
  block count, be a power of two, and the allocation succeed. Then the run returns and
  delivers to the serial finalize functor, once, the serial fold of the functor over
  \<open>[0, work_count)\<close>; so every other such device delivers the same value, whichever of
  the two paths it takes.
\<close>

theorem delivered_aggregate_power_of_two:
  assumes "\<forall>a b c. f_join F (f_join F a b) c = f_join F a (f_join F b c)"
    and "\<forall>a b. f_join F a b = f_join F b a"
    and "\<forall>a. f_join F (f_init F) a = a"
    and "\<forall>i v. f_apply F i v = f_join F v (f_apply F i (f_init F))"
    and "0 < work_count"
    and "reduction_thread_max dev reduce_size = 2 ^ p"
    and "reduction_thread_max dev reduce_size \<le> work_count
           \<longrightarrow> min (block_count_max dev) (reduction_thread_max dev reduce_size) = 2 ^ q"
    and "reduction_thread_max dev reduce_size \<le> work_count \<longrightarrow> \<not> allocation_fails dev"
    and "launch_in_range dev reduce_size work_count"
  shows "\<exists>st. cuda_parallel_reduce dev reduce_size work_count F = Some (Inr st)
            \<and> map call_value (serial_calls st)
                = [fold (f_apply F) [0..<work_count] (f_init F)]
            \<and> (\<forall>dev' reduce_size' p' q'.
                   reduction_thread_max dev' reduce_size' = 2 ^ p'
                 \<and> (reduction_thread_max dev' reduce_size' \<le> work_count
                      \<longrightarrow> min (block_count_max dev') (reduction_thread_max dev' reduce_size')
                            = 2 ^ q')
                 \<and> (reduction_thread_max dev' reduce_size' \<le> work_count
                      \<longrightarrow> \<not> allocation_fails dev')
                 \<and> launch_in_range dev' reduce_size' work_count
                 \<longrightarrow> (\<exists>st'. cuda_parallel_reduce dev' reduce_size' work_count F
                                = Some (Inr st')
                            \<and> map call_value (serial_calls st')
                                = map call_value (serial_calls st)))"
proof -
  have assoc: "\<And>a b c. f_join F (f_join F a b) c = f_join F a (f_join F b c)"
    using assms(1) by blast
  have comm: "\<And>a b. f_join F a b = f_join F b a" using assms(2) by blast
  have unit: "\<And>a. f_join F (f_init F) a = a" using assms(3) by blast
  have app: "\<And>i v. f_apply F i v = f_join F v (f_apply F i (f_init F))"
    using assms(4) by blast
  note total = delivered_total [of F, OF assoc comm unit app assms(5)]
  from total [OF assms(6,7,8,9)] obtain st where
    st: "cuda_parallel_reduce dev reduce_size work_count F = Some (Inr st)"
        "map call_value (serial_calls st) = [fold (f_apply F) [0..<work_count] (f_init F)]"
    by (elim exE conjE)
  have other: "\<exists>st'. cuda_parallel_reduce dev' reduce_size' work_count F = Some (Inr st')
             \<and> map call_value (serial_calls st') = map call_value (serial_calls st)"
    if "reduction_thread_max dev' reduce_size' = 2 ^ p'
        \<and> (reduction_thread_max dev' reduce_size' \<le> work_count
             \<longrightarrow> min (block_count_max dev') (reduction_thread_max dev' reduce_size') = 2 ^ q')
        \<and> (reduction_thread_max dev' reduce_size' \<le> work_count \<longrightarrow> \<not> allocation_fails dev')
        \<and> launch_in_range dev' reduce_size' work_count" for dev' reduce_size' p' q'
  proof -
    from that have h: "reduction_thread_max dev' reduce_size' = 2 ^ p'"
      "reduction_thread_max dev' reduce_size' \<le> work_count
         \<longrightarrow> min (block_count_max dev') (reduction_thread_max dev' reduce_size') = 2 ^ q'"
      "reduction_thread_max dev' reduce_size' \<le> work_count \<longrightarrow> \<not> allocation_fails dev'"
      "launch_in_range dev' reduce_size' work_count"
      by (rule conjunct1, rule conjunct1 [OF conjunct2], rule conjunct1 [OF conjunct2 [OF conjunct2]],
          rule conjunct2 [OF conjunct2 [OF conjunct2]])
    from total [OF h] show ?thesis by (simp only: st(2))
  qed
  then have every: "\<forall>dev' reduce_size' p' q'.
                   reduction_thread_max dev' reduce_size' = 2 ^ p'
                 \<and> (reduction_thread_max dev' reduce_size' \<le> work_count
                      \<longrightarrow> min (block_count_max dev') (reduction_thread_max dev' reduce_size')
                            = 2 ^ q')
                 \<and> (reduction_thread_max dev' reduce_size' \<le> work_count
                      \<longrightarrow> \<not> allocation_fails dev')
                 \<and> launch_in_range dev' reduce_size' work_count
                 \<longrightarrow> (\<exists>st'. cuda_parallel_reduce dev' reduce_size' work_count F
                                = Some (Inr st')
                            \<and> map call_value (serial_calls st')
                                = map call_value (serial_calls st))"
    by (intro allI impI)
  show ?thesis
    by (rule exI [of _ st], rule conjI, rule st(1), rule conjI, rule st(2), rule every)
qed

text \<open>
  Thirteen indices counted on a device of 4 threads and 8 blocks (several blocks) and on
  one of 16 threads and 2 blocks (one block): both deliver 13.
\<close>

theorem delivered_aggregate_power_of_two_witness:
  "\<exists>st st'. cuda_parallel_reduce (example_device 4 8 False) 4 13 count_functor = Some (Inr st)
           \<and> map call_value (serial_calls st) = [13]
           \<and> cuda_parallel_reduce (example_device 16 2 False) 4 13 count_functor
               = Some (Inr st')
           \<and> map call_value (serial_calls st') = [13]"
proof -
  let ?dev = "example_device 4 8 False"
  let ?dev' = "example_device 16 2 False"
  have w: "0 < (13::nat)" by simp
  have d1: "reduction_thread_max ?dev 4 = 2 ^ 2" by (simp add: example_device_def)
  have d2: "reduction_thread_max ?dev 4 \<le> 13
              \<longrightarrow> min (block_count_max ?dev) (reduction_thread_max ?dev 4) = 2 ^ 2"
    by (simp add: example_device_def)
  have d3: "reduction_thread_max ?dev 4 \<le> 13 \<longrightarrow> \<not> allocation_fails ?dev"
    by (simp add: example_device_def)
  have d': "reduction_thread_max ?dev' 4 = 2 ^ 4
              \<and> (reduction_thread_max ?dev' 4 \<le> 13
                   \<longrightarrow> min (block_count_max ?dev') (reduction_thread_max ?dev' 4) = 2 ^ 1)
              \<and> (reduction_thread_max ?dev' 4 \<le> 13 \<longrightarrow> \<not> allocation_fails ?dev')
              \<and> launch_in_range ?dev' 4 13"
    using launch_in_range_13_on_16_2 by (simp add: example_device_def)
  have total: "fold (f_apply count_functor) [0..<13] (f_init count_functor) = 13"
    by code_simp
  from delivered_aggregate_power_of_two [OF count_functor_laws w d1 d2 d3
      launch_in_range_13_on_4_8]
  obtain st where
    st: "cuda_parallel_reduce ?dev 4 13 count_functor = Some (Inr st)"
        "map call_value (serial_calls st)
           = [fold (f_apply count_functor) [0..<13] (f_init count_functor)]"
        "\<forall>dev' reduce_size' p' q'.
                   reduction_thread_max dev' reduce_size' = 2 ^ p'
                 \<and> (reduction_thread_max dev' reduce_size' \<le> 13
                      \<longrightarrow> min (block_count_max dev') (reduction_thread_max dev' reduce_size')
                            = 2 ^ q')
                 \<and> (reduction_thread_max dev' reduce_size' \<le> 13
                      \<longrightarrow> \<not> allocation_fails dev')
                 \<and> launch_in_range dev' reduce_size' 13
                 \<longrightarrow> (\<exists>st'. cuda_parallel_reduce dev' reduce_size' 13 count_functor
                                = Some (Inr st')
                            \<and> map call_value (serial_calls st')
                                = map call_value (serial_calls st))"
    by (elim exE conjE)
  from st(3) [rule_format, OF d'] obtain st' where
    st': "cuda_parallel_reduce ?dev' 4 13 count_functor = Some (Inr st')"
         "map call_value (serial_calls st') = map call_value (serial_calls st)"
    by (elim exE conjE)
  show ?thesis
    using st(1) st' st(2) by (simp add: total)
qed

section \<open>The call of the serial finalize functor\<close>

lemma delivered_value_total:
  assumes run: "cuda_parallel_reduce dev reduce_size work_count F = Some (Inr st)"
    and calls: "serial_calls st =
        [\<lparr>call_gridDim = 1, call_blockIdx = 0, call_threadIdx = 0, call_value = v\<rparr>]"
  shows "(\<forall>a b c. f_join F (f_join F a b) c = f_join F a (f_join F b c))
       \<and> (\<forall>a b. f_join F a b = f_join F b a)
       \<and> (\<forall>a. f_join F (f_init F) a = a)
       \<and> (\<forall>i v. f_apply F i v = f_join F v (f_apply F i (f_init F)))
       \<and> (\<exists>p. reduction_thread_max dev reduce_size = 2 ^ p)
       \<and> (reduction_thread_max dev reduce_size \<le> work_count \<longrightarrow>
            (\<exists>q. min (block_count_max dev) (reduction_thread_max dev reduce_size) = 2 ^ q))
       \<and> launch_in_range dev reduce_size work_count
       \<longrightarrow> v = fold (f_apply F) [0..<work_count] (f_init F)"
proof (intro impI, elim conjE exE)
  fix p
  assume assoc: "\<forall>a b c. f_join F (f_join F a b) c = f_join F a (f_join F b c)"
    and comm: "\<forall>a b. f_join F a b = f_join F b a"
    and unit: "\<forall>a. f_join F (f_init F) a = a"
    and app: "\<forall>i v. f_apply F i v = f_join F v (f_apply F i (f_init F))"
    and mt: "reduction_thread_max dev reduce_size = 2 ^ p"
    and mbE: "reduction_thread_max dev reduce_size \<le> work_count \<longrightarrow>
            (\<exists>q. min (block_count_max dev) (reduction_thread_max dev reduce_size) = 2 ^ q)"
    and range: "launch_in_range dev reduce_size work_count"
  have "\<exists>q. reduction_thread_max dev reduce_size \<le> work_count
               \<longrightarrow> min (block_count_max dev) (reduction_thread_max dev reduce_size) = 2 ^ q"
  proof (cases "reduction_thread_max dev reduce_size \<le> work_count")
    case True
    with mbE obtain q where
      "min (block_count_max dev) (reduction_thread_max dev reduce_size) = 2 ^ q"
      by (elim impE exE)
    then show ?thesis by (intro exI [of _ q] impI)
  next
    case False
    then show ?thesis by simp
  qed
  then obtain q where
    mb: "reduction_thread_max dev reduce_size \<le> work_count
               \<longrightarrow> min (block_count_max dev) (reduction_thread_max dev reduce_size) = 2 ^ q"
    by (elim exE)
  have wpos: "0 < work_count" by (rule cuda_parallel_reduce_Some_pos [OF run])
  have alloc: "reduction_thread_max dev reduce_size \<le> work_count \<longrightarrow> \<not> allocation_fails dev"
    using complete_alloc [OF _ run] by blast
  from delivered_total [of F, OF assoc [rule_format] comm [rule_format] unit [rule_format]
      app [rule_format] wpos mt mb alloc range]
  obtain st' where
    st': "cuda_parallel_reduce dev reduce_size work_count F = Some (Inr st')"
         "map call_value (serial_calls st') = [fold (f_apply F) [0..<work_count] (f_init F)]"
    by (elim exE conjE)
  from st'(1) run have "st' = st" by simp
  with st'(2) calls show "v = fold (f_apply F) [0..<work_count] (f_init F)" by simp
qed

text \<open>
  C7, as stated for every complete run, fails: five indices counted on a device of 6
  threads and 1 block take the path of one block, with 6 threads that hold 1, 1, 1, 1, 1
  and 0, whose join is 5, the count of the indices. The tree reduction of 6 slots never
  joins slot 2, and the serial finalize functor is called with 4.
\<close>

theorem serial_finalize_argument_drops_slot:
  "\<exists>st. cuda_parallel_reduce (example_device 6 1 False) 4 5 count_functor = Some (Inr st)
       \<and> map call_value (serial_calls st) = [4]
       \<and> block_thread_values count_functor 5 1 6 0 = Some [1, 1, 1, 1, 1, 0]
       \<and> join_all (f_join count_functor) [1, 1, 1, 1, 1, 0] = 5
       \<and> fold (f_apply count_functor) [0..<5] (f_init count_functor) = 5"
proof -
  have j: "join_all (f_join count_functor) [1, 1, 1, 1, 1, 0] = 5" by code_simp
  have f: "fold (f_apply count_functor) [0..<5] (f_init count_functor) = 5" by code_simp
  show ?thesis
    by (rule exI, intro conjI, rule count_5_on_6_1, simp, rule count_5_on_6_1_threads,
        rule j, rule f)
qed

text \<open>
  C7, amended. In every run that returns, on a device with at least one thread and one
  block, the serial finalize functor is called exactly once, by thread 0 of a launch of
  one block, and its argument is slot 0 of the shared memory after the last tree
  reduction: that of the only block in the path of one block, and that of the second
  kernel, over slot 0 of every block of the first kernel, in the path of several blocks.
  That argument is the serial fold of the functor over all indices where the functor
  obeys the laws of C3, the thread limit is a power of two, the first launch is in
  range and, in the path of several blocks, the minimum of the block limit and the
  thread limit is a power of two. The finalize functor of the first kernel of the path
  of several blocks never calls the serial finalize functor, and a thread other than
  thread 0 of a grid of one block never does.
\<close>

theorem serial_finalize_called_once:
  assumes "0 < reduction_thread_max dev reduce_size" and "0 < block_count_max dev"
    and "cuda_parallel_reduce dev reduce_size work_count F = Some (Inr st)"
  shows "\<exists>v. serial_calls st =
               [\<lparr>call_gridDim = 1, call_blockIdx = 0, call_threadIdx = 0, call_value = v\<rparr>]
           \<and> (work_count < reduction_thread_max dev reduce_size \<longrightarrow>
                (\<exists>thread_count shared.
                    shrink_thread_count work_count (reduction_thread_max dev reduce_size)
                      = Some thread_count
                  \<and> block_shared F work_count 1 thread_count 0 = Some shared
                  \<and> v = shared ! 0))
           \<and> (reduction_thread_max dev reduce_size \<le> work_count \<longrightarrow>
                (\<exists>block_count partial.
                    shrink_block_count work_count (reduction_thread_max dev reduce_size)
                      (min (block_count_max dev) (reduction_thread_max dev reduce_size))
                      = Some block_count
                  \<and> length partial = block_count
                  \<and> (\<forall>b<block_count.
                        \<exists>shared. block_shared F work_count block_count
                                    (reduction_thread_max dev reduce_size) b = Some shared
                               \<and> partial ! b = shared ! 0)
                  \<and> v = reduce_shared_on_cuda (f_join F) partial ! 0))
           \<and> ((\<forall>a b c. f_join F (f_join F a b) c = f_join F a (f_join F b c))
                \<and> (\<forall>a b. f_join F a b = f_join F b a)
                \<and> (\<forall>a. f_join F (f_init F) a = a)
                \<and> (\<forall>i v. f_apply F i v = f_join F v (f_apply F i (f_init F)))
                \<and> (\<exists>p. reduction_thread_max dev reduce_size = 2 ^ p)
                \<and> (reduction_thread_max dev reduce_size \<le> work_count \<longrightarrow>
                     (\<exists>q. min (block_count_max dev) (reduction_thread_max dev reduce_size)
                            = 2 ^ q))
                \<and> launch_in_range dev reduce_size work_count
                \<longrightarrow> v = fold (f_apply F) [0..<work_count] (f_init F))
           \<and> (\<forall>g b l sh (s :: 'v state).
                 serial_calls (CudaParallelReduceFinalizeBlock g b l sh s) = serial_calls s)
           \<and> (\<forall>g b sh t (s :: 'v state).
                 g \<noteq> 1 \<or> t \<noteq> 0 \<longrightarrow> finalize_functor_thread g b sh t s = s)"
proof (cases "work_count < reduction_thread_max dev reduce_size")
  case True
  note full = delivered_value_total [OF assms(3)]
  from complete_single [OF True assms(3)] obtain T where
    T: "shrink_thread_count work_count (reduction_thread_max dev reduce_size) = Some T"
       "block_shared F work_count 1 T 0 = Some (block_shared_list F work_count 1 T 0)"
       "serial_calls st = [\<lparr>call_gridDim = 1, call_blockIdx = 0, call_threadIdx = 0,
                      call_value = block_shared_list F work_count 1 T 0 ! 0\<rparr>]"
    by (elim exE conjE) simp
  have A: "\<exists>thread_count shared.
              shrink_thread_count work_count (reduction_thread_max dev reduce_size)
                = Some thread_count
            \<and> block_shared F work_count 1 thread_count 0 = Some shared
            \<and> block_shared_list F work_count 1 T 0 ! 0 = shared ! 0"
    using T(1,2) by (intro exI [of _ T] exI [of _ "block_shared_list F work_count 1 T 0"]) simp
  have B: "\<not> reduction_thread_max dev reduce_size \<le> work_count" using True by simp
  show ?thesis
    using T(3) A B full [OF T(3)] serial_calls_FinalizeBlock finalize_functor_thread_guard
    by (intro exI [of _ "block_shared_list F work_count 1 T 0 ! 0"]) blast
next
  case False
  note full = delivered_value_total [OF assms(3)]
  from False have multi: "reduction_thread_max dev reduce_size \<le> work_count" by simp
  let ?m = "reduction_thread_max dev reduce_size"
  from complete_multi [OF multi assms] obtain C where
    C: "shrink_block_count work_count ?m (min (block_count_max dev) ?m) = Some C"
       "0 < C"
       "\<forall>b<C. block_shared F work_count C ?m b = Some (block_shared_list F work_count C ?m b)"
       "serial_calls st = [\<lparr>call_gridDim = 1, call_blockIdx = 0, call_threadIdx = 0,
                      call_value =
                        reduce_shared_on_cuda (f_join F)
                          (map (\<lambda>b. block_shared_list F work_count C ?m b ! 0) [0..<C]) ! 0\<rparr>]"
    by (elim exE conjE) simp
  let ?partial = "map (\<lambda>b. block_shared_list F work_count C ?m b ! 0) [0..<C]"
  have A: "\<exists>block_count partial.
              shrink_block_count work_count ?m (min (block_count_max dev) ?m) = Some block_count
            \<and> length partial = block_count
            \<and> (\<forall>b<block_count.
                  \<exists>shared. block_shared F work_count block_count ?m b = Some shared
                         \<and> partial ! b = shared ! 0)
            \<and> reduce_shared_on_cuda (f_join F) ?partial ! 0
                = reduce_shared_on_cuda (f_join F) partial ! 0"
    using C(1,3) by (intro exI [of _ C] exI [of _ ?partial]) simp
  show ?thesis
    using C(4) A False full [OF C(4)] serial_calls_FinalizeBlock finalize_functor_thread_guard
    by (intro exI [of _ "reduce_shared_on_cuda (f_join F) ?partial ! 0"]) blast
qed

text \<open>Thirteen indices on a device of 4 threads and 8 blocks: one call, with 13.\<close>

theorem serial_finalize_called_once_witness:
  "\<exists>st v. cuda_parallel_reduce (example_device 4 8 False) 4 13 count_functor = Some (Inr st)
         \<and> serial_calls st =
             [\<lparr>call_gridDim = 1, call_blockIdx = 0, call_threadIdx = 0, call_value = v\<rparr>]
         \<and> v = fold (f_apply count_functor) [0..<13] (f_init count_functor)
         \<and> v = 13"
proof -
  let ?dev = "example_device 4 8 False"
  have h1: "0 < reduction_thread_max ?dev 4" by (simp add: example_device_def)
  have h2: "0 < block_count_max ?dev" by (simp add: example_device_def)
  have p: "\<exists>p. reduction_thread_max ?dev 4 = 2 ^ p"
    by (rule exI [of _ 2]) (simp add: example_device_def)
  have q: "reduction_thread_max ?dev 4 \<le> 13 \<longrightarrow>
             (\<exists>q. min (block_count_max ?dev) (reduction_thread_max ?dev 4) = 2 ^ q)"
    by (rule impI, rule exI [of _ 2]) (simp add: example_device_def)
  let ?st = "\<lparr>events = [Allocate_memory 4 4, Launch_reduce_functor Finalize_block 4 4 16,
                            Launch_reduce_operator Finalize_functor 1 4 16, Deallocate_memory],
                  block_value = [],
                  serial_calls = [\<lparr>call_gridDim = 1, call_blockIdx = 0, call_threadIdx = 0,
                                   call_value = 13\<rparr>],
                  block_writes = [(0, 4), (1, 4), (2, 4), (3, 1)]\<rparr> :: nat state"
  have run: "cuda_parallel_reduce ?dev 4 13 count_functor = Some (Inr ?st)"
    by (rule count_13_on_4_8)
  from serial_finalize_called_once [OF h1 h2 run] obtain v where
    calls: "serial_calls ?st
       = [\<lparr>call_gridDim = 1, call_blockIdx = 0, call_threadIdx = 0, call_value = v\<rparr>]"
    and full: "(\<forall>a b c. f_join count_functor (f_join count_functor a b) c
                  = f_join count_functor a (f_join count_functor b c))
                \<and> (\<forall>a b. f_join count_functor a b = f_join count_functor b a)
                \<and> (\<forall>a. f_join count_functor (f_init count_functor) a = a)
                \<and> (\<forall>i v. f_apply count_functor i v
                     = f_join count_functor v (f_apply count_functor i (f_init count_functor)))
                \<and> (\<exists>p. reduction_thread_max ?dev 4 = 2 ^ p)
                \<and> (reduction_thread_max ?dev 4 \<le> 13 \<longrightarrow>
                     (\<exists>q. min (block_count_max ?dev) (reduction_thread_max ?dev 4) = 2 ^ q))
                \<and> launch_in_range ?dev 4 13
                \<longrightarrow> v = fold (f_apply count_functor) [0..<13] (f_init count_functor)"
    by (elim exE conjE) (rule that)
  have fold: "v = fold (f_apply count_functor) [0..<13] (f_init count_functor)"
    by (rule full [rule_format]) (intro conjI count_functor_laws p q launch_in_range_13_on_4_8)
  from calls have "v = 13" by simp
  with run fold show ?thesis by simp
qed

end
